theory Spec2Isabelle
  imports Main "HOL-Library.Word" "HOL-Library.Multiset"
begin

section \<open>Data model of threadpool.h\<close>

text \<open>
  \<open>size_t\<close> is taken as a 64-bit unsigned integer (LP64); \<open>--\<close> on it wraps around.
  A \<open>void*\<close> and a function pointer are addresses, \<open>0\<close> being \<open>NULL\<close>.
\<close>

type_synonym size_t = "64 word"
type_synonym pointer = "64 word"

text \<open>
  The mutex of the pool. \<open>PTHREAD_MUTEX_INITIALIZER\<close> is \<open>Unlocked\<close>;
  \<open>pthread_mutex_destroy\<close> leaves it \<open>Destroyed\<close>.
\<close>

datatype pthread_mutex_t = Unlocked | Locked | Destroyed

text \<open>
  \<open>struct TaskStack\<close>: the \<open>next\<close> field of a node is the tail of the list that holds
  it, and the \<open>NULL\<close> stack is the empty list. Every node is freshly allocated by
  \<open>POOL_exectask\<close> and reachable from \<open>pool->task_stack\<close> only, so the list is the
  whole content of the linked structure. The \<open>malloc\<close> of a node is taken to succeed.
\<close>

record TaskStack =
  task_fn :: pointer
  task_args :: pointer

text \<open>
  \<open>struct Threadpool\<close>. The \<open>threads\<close> field is \<open>None\<close> when it points to no
  storage (it is \<open>NULL\<close>, or the storage has been freed), and otherwise holds the
  array of thread handles, an entry being \<open>None\<close> until \<open>pthread_create\<close> has
  written it. A thread handle is the index of the thread among the workers.
\<close>

record Threadpool =
  pool_mutex :: pthread_mutex_t
  task_stack :: "TaskStack list"
  num_threads :: size_t
  num_threads_running :: size_t
  threads :: "nat option list option"
  is_shutdown :: bool

section \<open>Ways in which an operation does not return\<close>

text \<open>
  \<open>Exit c\<close>: the process called \<open>exit(c)\<close>. \<open>Blocked\<close>: the caller waits in
  \<open>pthread_mutex_lock\<close> for a mutex that is held. \<open>Undefined\<close>: the C standard or
  POSIX leaves the behaviour undefined (locking a destroyed mutex, unlocking a mutex
  that is not locked, calling through a null function pointer).
\<close>

datatype stop = Exit int | Blocked | Undefined

definition bind :: "stop + 'a \<Rightarrow> ('a \<Rightarrow> stop + 'b) \<Rightarrow> stop + 'b" where
  "bind m f = (case m of Inl e \<Rightarrow> Inl e | Inr x \<Rightarrow> f x)"

section \<open>The critical-section macros\<close>

text \<open>
  \<open>POOL_CRITICAL_BEGIN\<close>: \<open>rc\<close> is the value \<open>pthread_mutex_lock\<close> returns. A value
  other than 0 takes the branch \<open>perror; exit(1)\<close>. The call returns 0 only once it
  has acquired the mutex, which needs the mutex free.
\<close>

definition POOL_CRITICAL_BEGIN :: "int \<Rightarrow> Threadpool \<Rightarrow> stop + Threadpool" where
  "POOL_CRITICAL_BEGIN rc pool =
     (if rc \<noteq> 0 then Inl (Exit 1)
      else case pool_mutex pool of
             Unlocked \<Rightarrow> Inr (pool\<lparr>pool_mutex := Locked\<rparr>)
           | Locked \<Rightarrow> Inl Blocked
           | Destroyed \<Rightarrow> Inl Undefined)"

text \<open>\<open>POOL_CRITICAL_END\<close>: \<open>rc\<close> is the value \<open>pthread_mutex_unlock\<close> returns.\<close>

definition POOL_CRITICAL_END :: "int \<Rightarrow> Threadpool \<Rightarrow> stop + Threadpool" where
  "POOL_CRITICAL_END rc pool =
     (if rc \<noteq> 0 then Inl (Exit 1)
      else case pool_mutex pool of
             Locked \<Rightarrow> Inr (pool\<lparr>pool_mutex := Unlocked\<rparr>)
           | Unlocked \<Rightarrow> Inl Undefined
           | Destroyed \<Rightarrow> Inl Undefined)"

section \<open>POOL\_create\<close>

text \<open>
  The control state of one worker thread running \<open>await_and_do_tasks\<close>: at the top of
  the \<open>while (true)\<close> loop, inside the call \<open>task_fn(task_args)\<close>, or returned.
\<close>

datatype worker = AtLoopHead | Calling pointer pointer | Returned

text \<open>
  \<open>sizeof(pthread_t)\<close>, with \<open>pthread_t\<close> an \<open>unsigned long\<close> (LP64, glibc).
\<close>

definition sizeof_pthread_t :: size_t where
  "sizeof_pthread_t = 8"

text \<open>
  \<open>(pthread_t*)malloc(bytes)\<close>: \<open>NULL\<close> when the allocation fails, and otherwise a
  block of \<open>bytes\<close> bytes, which has room for \<open>bytes / sizeof(pthread_t)\<close> handles.
  Whether the allocation succeeds is given from outside. The source does not check the
  result.
\<close>

definition malloc_handles :: "bool \<Rightarrow> size_t \<Rightarrow> nat option list option" where
  "malloc_handles ok bytes =
     (if ok then Some (replicate (unat bytes div unat sizeof_pthread_t) None) else None)"

text \<open>
  The assignments at the start of \<open>POOL_create\<close>, up to the allocation of the handle
  array. The size \<open>num_threads * sizeof(pthread_t)\<close> is computed in \<open>size_t\<close> and wraps.
\<close>

definition POOL_create_initialize :: "bool \<Rightarrow> Threadpool \<Rightarrow> size_t \<Rightarrow> Threadpool" where
  "POOL_create_initialize malloc_ok pool n =
     pool\<lparr>pool_mutex := Unlocked,
          task_stack := [],
          is_shutdown := False,
          num_threads := n,
          num_threads_running := n,
          threads := malloc_handles malloc_ok (n * sizeof_pthread_t)\<rparr>"

text \<open>
  \<open>pthread_create(&(pool->threads[i]), NULL, await_and_do_tasks, pool)\<close>, where \<open>rc\<close>
  is the value the call returns. Handing it the address of a slot that lies outside the
  allocated array (or an address computed from \<open>NULL\<close>) is undefined behaviour. With
  \<open>rc = 0\<close> a new thread starts at the top of the worker function and its handle is
  stored in \<open>threads[i]\<close>; otherwise no thread is created and the content of the slot
  is undefined. The source ignores \<open>rc\<close>.
\<close>

definition pthread_create :: "int \<Rightarrow> size_t \<Rightarrow> Threadpool \<times> worker list \<Rightarrow> stop + Threadpool \<times> worker list" where
  "pthread_create rc i pw =
     (case pw of (pool, ws) \<Rightarrow>
        (case threads pool of
           None \<Rightarrow> Inl Undefined
         | Some hs \<Rightarrow>
             if length hs \<le> unat i then Inl Undefined
             else if rc \<noteq> 0 then Inr (pool\<lparr>threads := Some (hs[unat i := None])\<rparr>, ws)
             else Inr (pool\<lparr>threads := Some (hs[unat i := Some (length ws)])\<rparr>, ws @ [AtLoopHead])))"

text \<open>
  The loop \<open>for (size_t i = 0; i < num_threads; i++)\<close>. The list holds the values that
  the successive \<open>pthread_create\<close> calls return; a call beyond the end of the list
  returns 0.
\<close>

function spawn_threads :: "int list \<Rightarrow> size_t \<Rightarrow> size_t \<Rightarrow> Threadpool \<times> worker list \<Rightarrow> stop + Threadpool \<times> worker list" where
  "spawn_threads rcs i n pw =
     (if i < n then
        (case pthread_create (case rcs of [] \<Rightarrow> 0 | rc # later \<Rightarrow> rc) i pw of
           Inl e \<Rightarrow> Inl e
         | Inr pw' \<Rightarrow> spawn_threads (tl rcs) (i + 1) n pw')
      else Inr pw)"
  by pat_completeness auto
termination
proof (relation "measure (\<lambda>(rcs, i, n, pw). unat n - unat i)")
  show "wf (measure (\<lambda>(rcs, i, n, pw). unat n - unat i))"
    by simp
next
  fix rcs :: "int list" and i n :: size_t and pw pw' :: "Threadpool \<times> worker list"
  assume "i < n"
  then have lt: "unat i < unat n"
    by (simp add: word_less_nat_alt)
  moreover have "unat n < 2 ^ 64"
    using unsigned_less [of n] by simp
  ultimately have "unat (i + 1) = unat i + 1"
    by (simp add: unat_word_ariths)
  with lt have "unat n - unat (i + 1) < unat n - unat i"
    by simp
  then show "((tl rcs, i + 1, n, pw'), (rcs, i, n, pw)) \<in> measure (\<lambda>(rcs, i, n, pw). unat n - unat i)"
    by simp
qed

declare spawn_threads.simps [simp del]

text \<open>
  \<open>POOL_create(pool, num_threads)\<close> overwrites every field of \<open>*pool\<close> and, when it
  returns, gives the pool together with the threads it has spawned.
\<close>

definition POOL_create :: "bool \<Rightarrow> int list \<Rightarrow> Threadpool \<Rightarrow> size_t \<Rightarrow> stop + Threadpool \<times> worker list" where
  "POOL_create malloc_ok rcs pool n =
     spawn_threads rcs 0 n (POOL_create_initialize malloc_ok pool n, [])"

section \<open>POOL\_exectask\<close>

text \<open>
  The \<open>return 0\<close> of the shutdown branch is inside the critical section, before
  \<open>POOL_CRITICAL_END\<close>.
\<close>

definition POOL_exectask :: "int \<Rightarrow> int \<Rightarrow> Threadpool \<Rightarrow> pointer \<Rightarrow> pointer \<Rightarrow> stop + (bool \<times> Threadpool)" where
  "POOL_exectask lock_rc unlock_rc pool fn args =
     bind (POOL_CRITICAL_BEGIN lock_rc pool) (\<lambda>pool.
       if is_shutdown pool then Inr (False, pool)
       else
         let work = \<lparr>task_fn = fn, task_args = args\<rparr>;
             pool = pool\<lparr>task_stack := work # task_stack pool\<rparr>
         in bind (POOL_CRITICAL_END unlock_rc pool) (\<lambda>pool. Inr (True, pool)))"

section \<open>The worker thread: await\_and\_do\_tasks\<close>

text \<open>
  \<open>pthread_detach(pthread_self())\<close> at the start of the thread and \<open>sched_yield()\<close>
  do not touch the pool and are left out.

  What the critical section of one iteration of the loop leaves to the code after it:
  the thread has executed \<open>return NULL\<close>, or it goes on with the local variable
  \<open>work\<close>, which is \<open>NULL\<close> (\<open>None\<close>) or the node popped from the stack.
\<close>

datatype iteration = Return_NULL | Work "TaskStack option"

definition await_and_do_tasks_critical :: "int \<Rightarrow> int \<Rightarrow> Threadpool \<Rightarrow> stop + (iteration \<times> Threadpool)" where
  "await_and_do_tasks_critical lock_rc unlock_rc pool =
     bind (POOL_CRITICAL_BEGIN lock_rc pool) (\<lambda>pool.
       if is_shutdown pool \<and> task_stack pool = [] then
         let pool = pool\<lparr>num_threads_running := num_threads_running pool - 1\<rparr>
         in bind (POOL_CRITICAL_END unlock_rc pool) (\<lambda>pool. Inr (Return_NULL, pool))
       else
         let work = (case task_stack pool of [] \<Rightarrow> None | w # next \<Rightarrow> Some w);
             pool = (case task_stack pool of [] \<Rightarrow> pool | w # next \<Rightarrow> pool\<lparr>task_stack := next\<rparr>)
         in bind (POOL_CRITICAL_END unlock_rc pool) (\<lambda>pool. Inr (Work work, pool)))"

text \<open>
  The code after the critical section: with work, the thread copies \<open>task_fn\<close> and
  \<open>task_args\<close> out of the node, frees the node and calls \<open>task_fn(task_args)\<close>;
  without work it yields and continues with the next iteration.
\<close>

definition after_critical :: "iteration \<Rightarrow> worker" where
  "after_critical r =
     (case r of
        Return_NULL \<Rightarrow> Returned
      | Work None \<Rightarrow> AtLoopHead
      | Work (Some work) \<Rightarrow> Calling (task_fn work) (task_args work))"

section \<open>POOL\_destroy\<close>

text \<open>
  The four parts of \<open>POOL_destroy\<close>: the critical section that sets the flag, one
  iteration of the first waiting loop, one iteration of the second waiting loop, and the
  tear-down. Each poll returns the value assigned to \<open>waiting\<close>. The source ignores
  what \<open>pthread_mutex_destroy\<close> returns; destroying a mutex that is not free is
  undefined.
\<close>

definition POOL_destroy_shutdown :: "int \<Rightarrow> int \<Rightarrow> Threadpool \<Rightarrow> stop + Threadpool" where
  "POOL_destroy_shutdown lock_rc unlock_rc pool =
     bind (POOL_CRITICAL_BEGIN lock_rc pool) (\<lambda>pool.
       POOL_CRITICAL_END unlock_rc (pool\<lparr>is_shutdown := True\<rparr>))"

definition POOL_destroy_poll_stack :: "int \<Rightarrow> int \<Rightarrow> Threadpool \<Rightarrow> stop + (bool \<times> Threadpool)" where
  "POOL_destroy_poll_stack lock_rc unlock_rc pool =
     bind (POOL_CRITICAL_BEGIN lock_rc pool) (\<lambda>pool.
       let waiting = (task_stack pool \<noteq> [])
       in bind (POOL_CRITICAL_END unlock_rc pool) (\<lambda>pool. Inr (waiting, pool)))"

definition POOL_destroy_poll_running :: "int \<Rightarrow> int \<Rightarrow> Threadpool \<Rightarrow> stop + (bool \<times> Threadpool)" where
  "POOL_destroy_poll_running lock_rc unlock_rc pool =
     bind (POOL_CRITICAL_BEGIN lock_rc pool) (\<lambda>pool.
       let waiting = (num_threads_running pool \<noteq> 0)
       in bind (POOL_CRITICAL_END unlock_rc pool) (\<lambda>pool. Inr (waiting, pool)))"

definition POOL_destroy_teardown :: "Threadpool \<Rightarrow> stop + Threadpool" where
  "POOL_destroy_teardown pool =
     (case pool_mutex pool of
        Unlocked \<Rightarrow> Inr (pool\<lparr>pool_mutex := Destroyed, threads := None\<rparr>)
      | Locked \<Rightarrow> Inl Undefined
      | Destroyed \<Rightarrow> Inl Undefined)"

section \<open>The threads together\<close>

text \<open>
  A program in the shape of the test driver: one caller creates the pool, submits a list
  of calls with \<open>POOL_exectask\<close> and then calls \<open>POOL_destroy\<close>, while the workers
  run. All shared fields are read and written inside critical sections only, so a
  critical section is one step of the program; the call of a task and the tear-down are
  steps of their own. A task is opaque: it returns, and it does not use the pool itself.

  The program starts after a \<open>POOL_create\<close> in which \<open>malloc\<close> and every
  \<open>pthread_create\<close> call have succeeded. Where \<open>POOL_create\<close> does not return even
  then (the size of the handle array has wrapped), the process has stopped before the
  caller's first step.

  The caller is about to submit the calls of a list (and then to enter
  \<open>POOL_destroy\<close>), or inside \<open>POOL_destroy\<close> in the first loop, in the second loop or
  before the tear-down, or it has returned from \<open>POOL_destroy\<close>.
\<close>

type_synonym call = "pointer \<times> pointer"

datatype caller = Submitting "call list" | Wait_Stack | Wait_Running | Teardown | Destroy_Returned

text \<open>
  \<open>sys_accepted\<close> lists the calls for which \<open>POOL_exectask\<close> returned true, and
  \<open>sys_completed\<close> the calls \<open>task_fn(task_args)\<close> that have returned, both in order.
  \<open>sys_stopped\<close> is set once the process has exited or run into undefined behaviour.
\<close>

record system =
  sys_pool :: Threadpool
  sys_workers :: "worker list"
  sys_caller :: caller
  sys_accepted :: "call list"
  sys_completed :: "call list"
  sys_stopped :: "stop option"

definition start :: "Threadpool \<Rightarrow> size_t \<Rightarrow> call list \<Rightarrow> system" where
  "start mem n calls =
     (case POOL_create True [] mem n of
        Inr (pool, ws) \<Rightarrow>
          \<lparr>sys_pool = pool, sys_workers = ws, sys_caller = Submitting calls,
           sys_accepted = [], sys_completed = [], sys_stopped = None\<rparr>
      | Inl e \<Rightarrow>
          \<lparr>sys_pool = POOL_create_initialize True mem n, sys_workers = [], sys_caller = Submitting calls,
           sys_accepted = [], sys_completed = [], sys_stopped = Some e\<rparr>)"

text \<open>One step of worker \<open>i\<close>, which has not returned.\<close>

definition worker_step :: "nat \<Rightarrow> int \<Rightarrow> int \<Rightarrow> system \<Rightarrow> stop + system" where
  "worker_step i lock_rc unlock_rc s =
     (case sys_workers s ! i of
        AtLoopHead \<Rightarrow>
          bind (await_and_do_tasks_critical lock_rc unlock_rc (sys_pool s)) (\<lambda>(r, pool).
            Inr (s\<lparr>sys_pool := pool, sys_workers := (sys_workers s)[i := after_critical r]\<rparr>))
      | Calling fn args \<Rightarrow>
          if fn = 0 then Inl Undefined
          else Inr (s\<lparr>sys_workers := (sys_workers s)[i := AtLoopHead],
                      sys_completed := sys_completed s @ [(fn, args)]\<rparr>)
      | Returned \<Rightarrow> Inr s)"

text \<open>One step of the caller, which has not returned from \<open>POOL_destroy\<close>.\<close>

definition caller_step :: "int \<Rightarrow> int \<Rightarrow> system \<Rightarrow> stop + system" where
  "caller_step lock_rc unlock_rc s =
     (case sys_caller s of
        Submitting ((fn, args) # rest) \<Rightarrow>
          bind (POOL_exectask lock_rc unlock_rc (sys_pool s) fn args) (\<lambda>(ok, pool).
            Inr (s\<lparr>sys_pool := pool, sys_caller := Submitting rest,
                   sys_accepted := (if ok then sys_accepted s @ [(fn, args)] else sys_accepted s)\<rparr>))
      | Submitting [] \<Rightarrow>
          bind (POOL_destroy_shutdown lock_rc unlock_rc (sys_pool s)) (\<lambda>pool.
            Inr (s\<lparr>sys_pool := pool, sys_caller := Wait_Stack\<rparr>))
      | Wait_Stack \<Rightarrow>
          bind (POOL_destroy_poll_stack lock_rc unlock_rc (sys_pool s)) (\<lambda>(waiting, pool).
            Inr (s\<lparr>sys_pool := pool, sys_caller := (if waiting then Wait_Stack else Wait_Running)\<rparr>))
      | Wait_Running \<Rightarrow>
          bind (POOL_destroy_poll_running lock_rc unlock_rc (sys_pool s)) (\<lambda>(waiting, pool).
            Inr (s\<lparr>sys_pool := pool, sys_caller := (if waiting then Wait_Running else Teardown)\<rparr>))
      | Teardown \<Rightarrow>
          bind (POOL_destroy_teardown (sys_pool s)) (\<lambda>pool.
            Inr (s\<lparr>sys_pool := pool, sys_caller := Destroy_Returned\<rparr>))
      | Destroy_Returned \<Rightarrow> Inr s)"

text \<open>
  A step that ends in \<open>exit\<close> or in undefined behaviour stops the whole process; a
  thread that waits for the mutex has no step.
\<close>

definition absorb :: "system \<Rightarrow> stop + system \<Rightarrow> system option" where
  "absorb s r =
     (case r of
        Inr s' \<Rightarrow> Some s'
      | Inl Blocked \<Rightarrow> None
      | Inl (Exit c) \<Rightarrow> Some (s\<lparr>sys_stopped := Some (Exit c)\<rparr>)
      | Inl Undefined \<Rightarrow> Some (s\<lparr>sys_stopped := Some Undefined\<rparr>))"

text \<open>
  The scheduler picks a thread that can run; the return values of
  \<open>pthread_mutex_lock\<close> and \<open>pthread_mutex_unlock\<close> in its step come with the choice.
  A stopped process, a worker that has returned and a caller that has returned take no
  step.
\<close>

datatype event = Worker_Step nat int int | Caller_Step int int

definition sys_step :: "event \<Rightarrow> system \<Rightarrow> system option" where
  "sys_step e s =
     (if sys_stopped s \<noteq> None then None
      else case e of
        Worker_Step i lock_rc unlock_rc \<Rightarrow>
          if i < length (sys_workers s) \<and> sys_workers s ! i \<noteq> Returned
          then absorb s (worker_step i lock_rc unlock_rc s) else None
      | Caller_Step lock_rc unlock_rc \<Rightarrow>
          if sys_caller s \<noteq> Destroy_Returned
          then absorb s (caller_step lock_rc unlock_rc s) else None)"

fun exec :: "event list \<Rightarrow> system \<Rightarrow> system option" where
  "exec [] s = Some s"
| "exec (e # es) s = (case sys_step e s of None \<Rightarrow> None | Some s' \<Rightarrow> exec es s')"

section \<open>Bookkeeping for the running program\<close>

text \<open>
  The calls that workers are executing, the number of workers that have not returned,
  and the calls held by the nodes of the stack.
\<close>

fun calling :: "worker \<Rightarrow> call list" where
  "calling (Calling fn args) = [(fn, args)]"
| "calling AtLoopHead = []"
| "calling Returned = []"

definition in_flight :: "worker list \<Rightarrow> call list" where
  "in_flight ws = concat (map calling ws)"

definition running_workers :: "worker list \<Rightarrow> nat" where
  "running_workers ws = length (filter (\<lambda>w. w \<noteq> Returned) ws)"

definition stack_calls :: "Threadpool \<Rightarrow> call list" where
  "stack_calls pool = map (\<lambda>work. (task_fn work, task_args work)) (task_stack pool)"

text \<open>
  Where the caller stands: the calls it has still to submit; whether it has passed the
  critical section of \<open>POOL_destroy\<close> that sets the flag; whether it has left the first
  waiting loop; whether it has left the second.
\<close>

fun remaining :: "caller \<Rightarrow> call list" where
  "remaining (Submitting rest) = rest"
| "remaining Wait_Stack = []"
| "remaining Wait_Running = []"
| "remaining Teardown = []"
| "remaining Destroy_Returned = []"

fun flag_set :: "caller \<Rightarrow> bool" where
  "flag_set (Submitting rest) = False"
| "flag_set Wait_Stack = True"
| "flag_set Wait_Running = True"
| "flag_set Teardown = True"
| "flag_set Destroy_Returned = True"

fun stack_seen_empty :: "caller \<Rightarrow> bool" where
  "stack_seen_empty (Submitting rest) = False"
| "stack_seen_empty Wait_Stack = False"
| "stack_seen_empty Wait_Running = True"
| "stack_seen_empty Teardown = True"
| "stack_seen_empty Destroy_Returned = True"

fun running_seen_zero :: "caller \<Rightarrow> bool" where
  "running_seen_zero (Submitting rest) = False"
| "running_seen_zero Wait_Stack = False"
| "running_seen_zero Wait_Running = False"
| "running_seen_zero Teardown = True"
| "running_seen_zero Destroy_Returned = True"

text \<open>
  What holds in every state the program reaches from \<open>start mem n calls\<close>.
\<close>

definition consistent :: "size_t \<Rightarrow> call list \<Rightarrow> system \<Rightarrow> bool" where
  "consistent n calls s \<longleftrightarrow>
     length (sys_workers s) = unat n
   \<and> unat (num_threads_running (sys_pool s)) = running_workers (sys_workers s)
   \<and> mset (sys_accepted s)
       = mset (stack_calls (sys_pool s)) + mset (in_flight (sys_workers s)) + mset (sys_completed s)
   \<and> sys_accepted s @ remaining (sys_caller s) = calls
   \<and> is_shutdown (sys_pool s) = flag_set (sys_caller s)
   \<and> (stack_seen_empty (sys_caller s) \<longrightarrow> task_stack (sys_pool s) = [])
   \<and> (running_seen_zero (sys_caller s) \<longrightarrow> num_threads_running (sys_pool s) = 0)
   \<and> pool_mutex (sys_pool s) = (if sys_caller s = Destroy_Returned then Destroyed else Unlocked)
   \<and> (threads (sys_pool s) = None) = (sys_caller s = Destroy_Returned)"

text \<open>
  No worker has returned while the flag was clear or the stack held a task.
\<close>

definition drained :: "system \<Rightarrow> bool" where
  "drained s \<longleftrightarrow>
     (Returned \<in> set (sys_workers s) \<longrightarrow> is_shutdown (sys_pool s) \<and> task_stack (sys_pool s) = [])"

text \<open>
  The calls that are still to be completed, and the condition that none of them has a
  \<open>NULL\<close> callable.
\<close>

definition pending :: "system \<Rightarrow> call list" where
  "pending s = remaining (sys_caller s) @ stack_calls (sys_pool s) @ in_flight (sys_workers s)"

definition callable :: "system \<Rightarrow> bool" where
  "callable s \<longleftrightarrow> (\<forall>c \<in> set (pending s). fst c \<noteq> 0)"

text \<open>
  A bound on the number of steps that remain until \<open>POOL_destroy\<close> has returned:
  every call is submitted, taken and completed, every worker returns, and the caller
  passes through the parts of \<open>POOL_destroy\<close>.
\<close>

fun phase :: "caller \<Rightarrow> nat" where
  "phase (Submitting rest) = 4"
| "phase Wait_Stack = 3"
| "phase Wait_Running = 2"
| "phase Teardown = 1"
| "phase Destroy_Returned = 0"

definition todo :: "system \<Rightarrow> nat" where
  "todo s = 3 * length (remaining (sys_caller s)) + 2 * length (task_stack (sys_pool s))
     + length (in_flight (sys_workers s)) + running_workers (sys_workers s) + phase (sys_caller s)"

section \<open>Inputs used in the examples\<close>

text \<open>
  A pool of one thread with a free mutex, with a given flag and stack; a program state
  in which no call has been accepted yet; and the memory that \<open>POOL_create\<close> is
  handed before it has initialised it.
\<close>

abbreviation pool_with :: "bool \<Rightarrow> TaskStack list \<Rightarrow> Threadpool" where
  "pool_with flag stack \<equiv>
     \<lparr>pool_mutex = Unlocked, task_stack = stack, num_threads = 1, num_threads_running = 1,
      threads = Some [Some 0], is_shutdown = flag\<rparr>"

abbreviation system_with :: "Threadpool \<Rightarrow> worker list \<Rightarrow> caller \<Rightarrow> system" where
  "system_with pool ws c \<equiv>
     \<lparr>sys_pool = pool, sys_workers = ws, sys_caller = c,
      sys_accepted = [], sys_completed = [], sys_stopped = None\<rparr>"

abbreviation raw_memory :: Threadpool where
  "raw_memory \<equiv>
     \<lparr>pool_mutex = Destroyed, task_stack = [], num_threads = 0, num_threads_running = 0,
      threads = None, is_shutdown = True\<rparr>"

text \<open>
  A run of the program with one worker and two calls, the states it passes through
  shortly before the end, and its last state.
\<close>

abbreviation example_calls :: "call list" where
  "example_calls \<equiv> [(5, 6), (7, 8)]"

abbreviation example_run_9 :: "event list" where
  "example_run_9 \<equiv>
     [Caller_Step 0 0, Caller_Step 0 0, Worker_Step 0 0 0, Worker_Step 0 0 0, Caller_Step 0 0,
      Worker_Step 0 0 0, Worker_Step 0 0 0, Caller_Step 0 0, Caller_Step 0 0]"

abbreviation example_run_11 :: "event list" where
  "example_run_11 \<equiv> example_run_9 @ [Worker_Step 0 0 0, Caller_Step 0 0]"

abbreviation example_run :: "event list" where
  "example_run \<equiv> example_run_11 @ [Caller_Step 0 0]"

abbreviation example_state :: "size_t \<Rightarrow> worker \<Rightarrow> caller \<Rightarrow> system" where
  "example_state r w c \<equiv>
     \<lparr>sys_pool = \<lparr>pool_mutex = Unlocked, task_stack = [], num_threads = 1, num_threads_running = r,
                  threads = Some [Some 0], is_shutdown = True\<rparr>,
      sys_workers = [w], sys_caller = c,
      sys_accepted = example_calls, sys_completed = [(7, 8), (5, 6)], sys_stopped = None\<rparr>"

abbreviation example_end :: system where
  "example_end \<equiv>
     \<lparr>sys_pool = \<lparr>pool_mutex = Destroyed, task_stack = [], num_threads = 1, num_threads_running = 0,
                  threads = None, is_shutdown = True\<rparr>,
      sys_workers = [Returned], sys_caller = Destroy_Returned,
      sys_accepted = example_calls, sys_completed = [(7, 8), (5, 6)], sys_stopped = None\<rparr>"

section \<open>Properties of the single operations\<close>

lemmas critical_defs = bind_def POOL_CRITICAL_BEGIN_def POOL_CRITICAL_END_def

lemmas operation_defs =
  POOL_exectask_def await_and_do_tasks_critical_def POOL_destroy_shutdown_def
  POOL_destroy_poll_stack_def POOL_destroy_poll_running_def POOL_destroy_teardown_def

lemmas system_defs = worker_step_def caller_step_def absorb_def sys_step_def after_critical_def

text \<open>
  With the mutex free and the lock call succeeding, \<open>POOL_exectask\<close> on a pool whose
  shutdown flag is set returns false and leaves the stack as it was; on a pool whose flag
  is clear (and the unlock call succeeding) it returns true and the stack is the old
  stack with the new task in front.
\<close>

lemma exectask_with_free_mutex:
  assumes "pool_mutex pool = Unlocked"
  shows "(is_shutdown pool \<longrightarrow>
           (\<exists>pool'. POOL_exectask 0 unlock_rc pool fn args = Inr (False, pool')
                    \<and> task_stack pool' = task_stack pool))
       \<and> (\<not> is_shutdown pool \<longrightarrow>
           (\<exists>pool'. POOL_exectask 0 0 pool fn args = Inr (True, pool')
                    \<and> task_stack pool' = \<lparr>task_fn = fn, task_args = args\<rparr> # task_stack pool))"
  using assms by (simp add: POOL_exectask_def critical_defs)

text \<open>
  A mutex that a thread has left locked is not released by any step of the program, and
  a caller that goes on to submit waits for it.
\<close>

lemma held_mutex_stays_held:
  assumes "pool_mutex (sys_pool s) = Locked" and "sys_step e s = Some s'"
  shows "pool_mutex (sys_pool s') = Locked"
proof (cases e)
  case (Worker_Step i lock_rc unlock_rc)
  with assms show ?thesis
    by (cases "sys_workers s ! i")
      (auto simp add: sys_step_def worker_step_def absorb_def await_and_do_tasks_critical_def
        critical_defs split: if_splits)
next
  case (Caller_Step lock_rc unlock_rc)
  show ?thesis
  proof (cases "sys_caller s")
    case (Submitting cs)
    with assms Caller_Step show ?thesis
      by (cases cs)
        (auto simp add: sys_step_def caller_step_def absorb_def POOL_exectask_def
          POOL_destroy_shutdown_def critical_defs split: if_splits)
  next
    case Wait_Stack
    with assms Caller_Step show ?thesis
      by (auto simp add: sys_step_def caller_step_def absorb_def POOL_destroy_poll_stack_def
          critical_defs split: if_splits)
  next
    case Wait_Running
    with assms Caller_Step show ?thesis
      by (auto simp add: sys_step_def caller_step_def absorb_def POOL_destroy_poll_running_def
          critical_defs split: if_splits)
  next
    case Teardown
    with assms Caller_Step show ?thesis
      by (auto simp add: sys_step_def caller_step_def absorb_def POOL_destroy_teardown_def
          bind_def split: if_splits)
  next
    case Destroy_Returned
    with assms Caller_Step show ?thesis
      by (auto simp add: sys_step_def split: if_splits)
  qed
qed

lemma held_mutex_blocks_submit:
  assumes "pool_mutex (sys_pool s) = Locked" and "sys_caller s = Submitting (c # rest)"
  shows "sys_step (Caller_Step 0 unlock_rc) s = None"
  using assms
  by (cases c) (simp add: sys_step_def caller_step_def absorb_def POOL_exectask_def critical_defs)

text \<open>
  C1: a submit to a pool whose flag is set returns false, with the stack unchanged and
  with the mutex still locked (see C2). On the pool that this call leaves behind, the
  next submit does not return false: the caller waits for the mutex, and so does the
  worker.
\<close>

theorem exectask_after_rejected_submit_blocks:
  "POOL_exectask 0 0 (pool_with True []) 5 6 = Inr (False, (pool_with True [])\<lparr>pool_mutex := Locked\<rparr>)
 \<and> POOL_exectask 0 0 ((pool_with True [])\<lparr>pool_mutex := Locked\<rparr>) 7 8 = Inl Blocked
 \<and> sys_step (Caller_Step 0 0)
      (system_with ((pool_with True [])\<lparr>pool_mutex := Locked\<rparr>) [AtLoopHead] (Submitting [(7, 8)])) = None
 \<and> sys_step (Worker_Step 0 0 0)
      (system_with ((pool_with True [])\<lparr>pool_mutex := Locked\<rparr>) [AtLoopHead] (Submitting [(7, 8)])) = None"
  by (simp add: POOL_exectask_def await_and_do_tasks_critical_def critical_defs system_defs)

text \<open>
  C2: on a pool whose shutdown flag is set and whose mutex is free, \<open>POOL_exectask\<close>
  returns false with the mutex still locked: the \<open>return 0\<close> leaves the critical
  section without \<open>POOL_CRITICAL_END\<close>.
\<close>

theorem exectask_shutdown_returns_locked:
  "POOL_exectask 0 0 (pool_with True []) 5 6 = Inr (False, (pool_with True [])\<lparr>pool_mutex := Locked\<rparr>)"
  by (simp add: POOL_exectask_def critical_defs)

text \<open>
  C3: on a pool that accepts tasks, three submissions A, B, C followed by three worker
  iterations hand out C, then B, then A, and leave the stack as it was before; and a
  submission followed by one worker iteration hands out the task just submitted.
\<close>

theorem task_stack_lifo:
  assumes "pool_mutex pool = Unlocked" and "\<not> is_shutdown pool"
  shows "(\<exists>p1 p2 p3 q1 q2 q3.
            POOL_exectask 0 0 pool fa aa = Inr (True, p1)
          \<and> POOL_exectask 0 0 p1 fb ab = Inr (True, p2)
          \<and> POOL_exectask 0 0 p2 fc ac = Inr (True, p3)
          \<and> await_and_do_tasks_critical 0 0 p3 = Inr (Work (Some \<lparr>task_fn = fc, task_args = ac\<rparr>), q1)
          \<and> await_and_do_tasks_critical 0 0 q1 = Inr (Work (Some \<lparr>task_fn = fb, task_args = ab\<rparr>), q2)
          \<and> await_and_do_tasks_critical 0 0 q2 = Inr (Work (Some \<lparr>task_fn = fa, task_args = aa\<rparr>), q3)
          \<and> task_stack q3 = task_stack pool)
       \<and> (\<exists>p1 q1.
            POOL_exectask 0 0 pool fa aa = Inr (True, p1)
          \<and> await_and_do_tasks_critical 0 0 p1 = Inr (Work (Some \<lparr>task_fn = fa, task_args = aa\<rparr>), q1)
          \<and> task_stack q1 = task_stack pool)"
  using assms by (simp add: POOL_exectask_def await_and_do_tasks_critical_def critical_defs)

theorem task_stack_lifo_witness:
  "\<exists>p1 p2 p3 q1 q2 q3.
      POOL_exectask 0 0 (pool_with False []) 1 10 = Inr (True, p1)
    \<and> POOL_exectask 0 0 p1 2 20 = Inr (True, p2)
    \<and> POOL_exectask 0 0 p2 3 30 = Inr (True, p3)
    \<and> await_and_do_tasks_critical 0 0 p3 = Inr (Work (Some \<lparr>task_fn = 3, task_args = 30\<rparr>), q1)
    \<and> await_and_do_tasks_critical 0 0 q1 = Inr (Work (Some \<lparr>task_fn = 2, task_args = 20\<rparr>), q2)
    \<and> await_and_do_tasks_critical 0 0 q2 = Inr (Work (Some \<lparr>task_fn = 1, task_args = 10\<rparr>), q3)
    \<and> task_stack q3 = []"
  using task_stack_lifo [of "pool_with False []" 1 10 2 20 3 30]
  by simp



lemma unat_succ_below:
  fixes i n :: size_t
  assumes "i < n"
  shows "unat (i + 1) = Suc (unat i)"
proof -
  from assms have "unat i < unat n"
    by (simp add: word_less_nat_alt)
  moreover have "unat n < 2 ^ 64"
    using unsigned_less [of n] by simp
  ultimately show ?thesis
    by (simp add: unat_word_ariths)
qed

lemma spawn_threads_unfold:
  "i < n \<Longrightarrow> spawn_threads rcs i n pw =
     (case pthread_create (case rcs of [] \<Rightarrow> 0 | rc # later \<Rightarrow> rc) i pw of
        Inl e \<Rightarrow> Inl e
      | Inr pw' \<Rightarrow> spawn_threads (tl rcs) (i + 1) n pw')"
  "\<not> i < n \<Longrightarrow> spawn_threads rcs i n pw = Inr pw"
  by (simp_all add: spawn_threads.simps [of rcs i n pw])

text \<open>What one \<open>pthread_create\<close> call that returns leaves behind.\<close>

lemma pthread_create_returns:
  assumes "pthread_create rc i pw = Inr pw'"
  shows "pool_mutex (fst pw') = pool_mutex (fst pw)
       \<and> task_stack (fst pw') = task_stack (fst pw)
       \<and> is_shutdown (fst pw') = is_shutdown (fst pw)
       \<and> num_threads (fst pw') = num_threads (fst pw)
       \<and> num_threads_running (fst pw') = num_threads_running (fst pw)
       \<and> (\<exists>hs hs'. threads (fst pw) = Some hs \<and> threads (fst pw') = Some hs' \<and> length hs' = length hs)
       \<and> (snd pw' = snd pw \<and> rc \<noteq> 0 \<or> snd pw' = snd pw @ [AtLoopHead] \<and> rc = 0)"
  using assms
  by (cases pw) (auto simp add: pthread_create_def split: option.splits if_splits)

lemma spawn_threads_returns:
  "spawn_threads rcs i n pw = Inr pw' \<Longrightarrow> i \<le> n \<Longrightarrow>
     pool_mutex (fst pw') = pool_mutex (fst pw)
   \<and> task_stack (fst pw') = task_stack (fst pw)
   \<and> is_shutdown (fst pw') = is_shutdown (fst pw)
   \<and> num_threads (fst pw') = num_threads (fst pw)
   \<and> num_threads_running (fst pw') = num_threads_running (fst pw)
   \<and> (threads (fst pw') = None) = (threads (fst pw) = None)
   \<and> (\<exists>k \<le> unat n - unat i. snd pw' = snd pw @ replicate k AtLoopHead)
   \<and> ((\<forall>r \<in> set rcs. r = 0) \<longrightarrow> snd pw' = snd pw @ replicate (unat n - unat i) AtLoopHead)"
proof (induction rcs i n pw rule: spawn_threads.induct)
  case (1 rcs i n pw)
  show ?case
  proof (cases "i < n")
    case True
    let ?rc = "case rcs of [] \<Rightarrow> 0 | rc # later \<Rightarrow> rc"
    from True "1.prems"(1) obtain pw1 where one: "pthread_create ?rc i pw = Inr pw1"
      and rest: "spawn_threads (tl rcs) (i + 1) n pw1 = Inr pw'"
      by (auto simp add: spawn_threads_unfold(1) split: sum.splits)
    from True have step: "unat (i + 1) = Suc (unat i)"
      by (rule unat_succ_below)
    from True have lt: "unat i < unat n"
      by (simp add: word_less_nat_alt)
    with step have le: "i + 1 \<le> n"
      by (simp add: word_le_nat_alt)
    note ih = "1.IH" [OF True one rest le]
    note first = pthread_create_returns [OF one]
    from lt have count: "unat n - unat i = Suc (unat n - Suc (unat i))"
      by simp
    have zero: "?rc = 0 \<and> (\<forall>r \<in> set (tl rcs). r = 0)" if "\<forall>r \<in> set rcs. r = 0"
      using that by (cases rcs) simp_all
    from ih first have fields: "pool_mutex (fst pw') = pool_mutex (fst pw)
        \<and> task_stack (fst pw') = task_stack (fst pw)
        \<and> is_shutdown (fst pw') = is_shutdown (fst pw)
        \<and> num_threads (fst pw') = num_threads (fst pw)
        \<and> num_threads_running (fst pw') = num_threads_running (fst pw)
        \<and> (threads (fst pw') = None) = (threads (fst pw) = None)"
      by auto
    from ih obtain k where k: "k \<le> unat n - unat (i + 1)" "snd pw' = snd pw1 @ replicate k AtLoopHead"
      by blast
    from first have "snd pw1 = snd pw \<or> snd pw1 = snd pw @ [AtLoopHead]"
      by blast
    then have some: "\<exists>k \<le> unat n - unat i. snd pw' = snd pw @ replicate k AtLoopHead"
    proof
      assume "snd pw1 = snd pw"
      with k step count have "k \<le> unat n - unat i \<and> snd pw' = snd pw @ replicate k AtLoopHead"
        by simp
      then show ?thesis
        by blast
    next
      assume "snd pw1 = snd pw @ [AtLoopHead]"
      with k step count have "Suc k \<le> unat n - unat i \<and> snd pw' = snd pw @ replicate (Suc k) AtLoopHead"
        by simp
      then show ?thesis
        by blast
    qed
    have all: "snd pw' = snd pw @ replicate (unat n - unat i) AtLoopHead" if ok: "\<forall>r \<in> set rcs. r = 0"
    proof -
      from zero [OF ok] first have "snd pw1 = snd pw @ [AtLoopHead]"
        by auto
      moreover from zero [OF ok] ih have "snd pw' = snd pw1 @ replicate (unat n - unat (i + 1)) AtLoopHead"
        by blast
      ultimately show ?thesis
        using step count by simp
    qed
    from fields some all show ?thesis
      by blast
  next
    case False
    with "1.prems" have "i = n"
      by simp
    with False "1.prems"(1) show ?thesis
      by (simp add: spawn_threads_unfold(2))
  qed
qed







text \<open>
  C9: a lock call that returns non-zero ends \<open>POOL_exectask\<close>, the worker's critical
  section and the three critical sections of \<open>POOL_destroy\<close> in \<open>exit(1)\<close>; so does an
  unlock call that returns non-zero, wherever the unlock call is reached (in
  \<open>POOL_exectask\<close> it is reached only when the flag is clear). In the running program
  such a step stops the process, and a stopped process takes no further step.
  \<open>POOL_create\<close> makes no lock or unlock call.
\<close>

theorem lock_failure_exits:
  "(lock_rc \<noteq> 0 \<longrightarrow>
        POOL_exectask lock_rc unlock_rc pool fn args = Inl (Exit 1)
      \<and> await_and_do_tasks_critical lock_rc unlock_rc pool = Inl (Exit 1)
      \<and> POOL_destroy_shutdown lock_rc unlock_rc pool = Inl (Exit 1)
      \<and> POOL_destroy_poll_stack lock_rc unlock_rc pool = Inl (Exit 1)
      \<and> POOL_destroy_poll_running lock_rc unlock_rc pool = Inl (Exit 1))
 \<and> (unlock_rc \<noteq> 0 \<and> pool_mutex pool = Unlocked \<longrightarrow>
        (\<not> is_shutdown pool \<longrightarrow> POOL_exectask 0 unlock_rc pool fn args = Inl (Exit 1))
      \<and> await_and_do_tasks_critical 0 unlock_rc pool = Inl (Exit 1)
      \<and> POOL_destroy_shutdown 0 unlock_rc pool = Inl (Exit 1)
      \<and> POOL_destroy_poll_stack 0 unlock_rc pool = Inl (Exit 1)
      \<and> POOL_destroy_poll_running 0 unlock_rc pool = Inl (Exit 1))
 \<and> (sys_stopped s = None \<and> i < length (sys_workers s) \<and> sys_workers s ! i = AtLoopHead
      \<and> (lock_rc \<noteq> 0 \<or> unlock_rc \<noteq> 0 \<and> pool_mutex (sys_pool s) = Unlocked) \<longrightarrow>
        sys_step (Worker_Step i lock_rc unlock_rc) s = Some (s\<lparr>sys_stopped := Some (Exit 1)\<rparr>))
 \<and> (sys_stopped s = None \<and> sys_caller s \<noteq> Teardown \<and> sys_caller s \<noteq> Destroy_Returned
      \<and> (lock_rc \<noteq> 0 \<or> unlock_rc \<noteq> 0 \<and> pool_mutex (sys_pool s) = Unlocked \<and> \<not> is_shutdown (sys_pool s)) \<longrightarrow>
        sys_step (Caller_Step lock_rc unlock_rc) s = Some (s\<lparr>sys_stopped := Some (Exit 1)\<rparr>))
 \<and> (sys_stopped s \<noteq> None \<longrightarrow> sys_step e s = None)"
  by (auto simp add: operation_defs critical_defs system_defs Let_def
      split: caller.splits list.splits)

theorem lock_failure_exits_witness:
  "POOL_exectask 22 0 (pool_with False []) 5 6 = Inl (Exit 1)
 \<and> POOL_destroy_poll_stack 22 0 (pool_with False []) = Inl (Exit 1)
 \<and> POOL_exectask 0 1 (pool_with False []) 5 6 = Inl (Exit 1)
 \<and> await_and_do_tasks_critical 0 1 (pool_with False []) = Inl (Exit 1)
 \<and> sys_step (Worker_Step 0 22 0) (system_with (pool_with False []) [AtLoopHead] (Submitting [(5, 6)]))
      = Some ((system_with (pool_with False []) [AtLoopHead] (Submitting [(5, 6)]))\<lparr>sys_stopped := Some (Exit 1)\<rparr>)
 \<and> sys_step (Caller_Step 0 1) (system_with (pool_with False []) [AtLoopHead] (Submitting [(5, 6)]))
      = Some ((system_with (pool_with False []) [AtLoopHead] (Submitting [(5, 6)]))\<lparr>sys_stopped := Some (Exit 1)\<rparr>)
 \<and> sys_step (Caller_Step 0 0)
       ((system_with (pool_with False []) [AtLoopHead] (Submitting [(5, 6)]))\<lparr>sys_stopped := Some (Exit 1)\<rparr>) = None"
  using
    lock_failure_exits [where lock_rc = 22 and unlock_rc = 0 and pool = "pool_with False []" and fn = 5
      and args = 6 and i = 0 and s = "system_with (pool_with False []) [AtLoopHead] (Submitting [(5, 6)])"]
    lock_failure_exits [where lock_rc = 0 and unlock_rc = 1 and pool = "pool_with False []" and fn = 5
      and args = 6 and i = 0 and s = "system_with (pool_with False []) [AtLoopHead] (Submitting [(5, 6)])"]
    lock_failure_exits [where e = "Caller_Step 0 0"
      and s = "(system_with (pool_with False []) [AtLoopHead] (Submitting [(5, 6)]))\<lparr>sys_stopped := Some (Exit 1)\<rparr>"]
  by simp



section \<open>Properties of the running program\<close>

lemma in_flight_update:
  "i < length ws \<Longrightarrow>
   mset (in_flight (ws[i := w])) + mset (calling (ws ! i)) = mset (in_flight ws) + mset (calling w)"
proof (induction ws arbitrary: i)
  case Nil
  then show ?case by simp
next
  case (Cons a ws)
  show ?case
  proof (cases i)
    case 0
    then show ?thesis by (simp add: in_flight_def)
  next
    case (Suc j)
    with Cons.prems have "j < length ws" by simp
    from Cons.IH [OF this] Suc show ?thesis
      by (simp add: in_flight_def)
  qed
qed

lemma running_workers_update:
  "i < length ws \<Longrightarrow>
   running_workers (ws[i := w]) + (if ws ! i \<noteq> Returned then 1 else 0)
     = running_workers ws + (if w \<noteq> Returned then 1 else 0)"
proof (induction ws arbitrary: i)
  case Nil
  then show ?case by simp
next
  case (Cons a ws)
  show ?case
  proof (cases i)
    case 0
    then show ?thesis by (simp add: running_workers_def)
  next
    case (Suc j)
    with Cons.prems have "j < length ws" by simp
    from Cons.IH [OF this] have
      "running_workers (ws[j := w]) + (if ws ! j \<noteq> Returned then 1 else 0)
         = running_workers ws + (if w \<noteq> Returned then 1 else 0)" .
    moreover have "running_workers ((a # ws)[i := w]) = (if a \<noteq> Returned then 1 else 0) + running_workers (ws[j := w])"
      using Suc by (simp add: running_workers_def)
    moreover have "running_workers (a # ws) = (if a \<noteq> Returned then 1 else 0) + running_workers ws"
      by (simp add: running_workers_def)
    moreover have "(a # ws) ! i = ws ! j"
      using Suc by simp
    ultimately show ?thesis
      by simp
  qed
qed

lemma running_workers_zero:
  "running_workers ws = 0 \<Longrightarrow> in_flight ws = [] \<and> (\<forall>w \<in> set ws. w = Returned)"
proof (induction ws)
  case Nil
  then show ?case by (simp add: in_flight_def)
next
  case (Cons a ws)
  from Cons.prems have a: "a = Returned" and rest: "running_workers ws = 0"
    by (simp_all add: running_workers_def split: if_splits)
  from Cons.IH [OF rest] a show ?case
    by (simp add: in_flight_def)
qed


lemma unlocked_relock [simp]:
  "pool_mutex pool = Unlocked \<Longrightarrow> pool\<lparr>pool_mutex := Unlocked\<rparr> = pool"
  by (cases pool) simp

lemma worker_step_cases:
  assumes step: "sys_step (Worker_Step i lock_rc unlock_rc) s = Some s'"
    and free: "pool_mutex (sys_pool s) = Unlocked"
  shows "i < length (sys_workers s) \<and> sys_stopped s = None \<and>
     ((\<exists>e. s' = s\<lparr>sys_stopped := Some e\<rparr>)
    \<or> (sys_workers s ! i = AtLoopHead \<and> is_shutdown (sys_pool s) \<and> task_stack (sys_pool s) = []
        \<and> s' = s\<lparr>sys_pool := (sys_pool s)\<lparr>num_threads_running := num_threads_running (sys_pool s) - 1\<rparr>,
                 sys_workers := (sys_workers s)[i := Returned]\<rparr>)
    \<or> (sys_workers s ! i = AtLoopHead \<and> \<not> is_shutdown (sys_pool s) \<and> task_stack (sys_pool s) = []
        \<and> s' = s\<lparr>sys_pool := sys_pool s, sys_workers := (sys_workers s)[i := AtLoopHead]\<rparr>)
    \<or> (sys_workers s ! i = AtLoopHead
        \<and> (\<exists>w next. task_stack (sys_pool s) = w # next
              \<and> s' = s\<lparr>sys_pool := (sys_pool s)\<lparr>task_stack := next\<rparr>,
                       sys_workers := (sys_workers s)[i := Calling (task_fn w) (task_args w)]\<rparr>))
    \<or> (\<exists>fn args. sys_workers s ! i = Calling fn args \<and> fn \<noteq> 0
        \<and> s' = s\<lparr>sys_workers := (sys_workers s)[i := AtLoopHead],
                 sys_completed := sys_completed s @ [(fn, args)]\<rparr>))"
proof -
  from step have en: "i < length (sys_workers s)" "sys_stopped s = None" "sys_workers s ! i \<noteq> Returned"
    by (auto simp add: sys_step_def split: if_splits)
  show ?thesis
  proof (cases "sys_workers s ! i")
    case AtLoopHead
    with step en free show ?thesis
      by (cases "task_stack (sys_pool s)")
        (auto simp add: sys_step_def worker_step_def absorb_def after_critical_def
          await_and_do_tasks_critical_def critical_defs Let_def
          split: if_splits stop.splits)
  next
    case (Calling fn args)
    with step en show ?thesis
      by (auto simp add: sys_step_def worker_step_def absorb_def split: if_splits)
  next
    case Returned
    with en show ?thesis by simp
  qed
qed

lemma caller_step_cases:
  assumes step: "sys_step (Caller_Step lock_rc unlock_rc) s = Some s'"
    and free: "pool_mutex (sys_pool s) = Unlocked"
  shows "sys_stopped s = None \<and>
     ((\<exists>e. s' = s\<lparr>sys_stopped := Some e\<rparr>)
    \<or> (\<exists>fn args rest. sys_caller s = Submitting ((fn, args) # rest) \<and> is_shutdown (sys_pool s)
        \<and> s' = s\<lparr>sys_pool := (sys_pool s)\<lparr>pool_mutex := Locked\<rparr>, sys_caller := Submitting rest,
                 sys_accepted := sys_accepted s\<rparr>)
    \<or> (\<exists>fn args rest. sys_caller s = Submitting ((fn, args) # rest) \<and> \<not> is_shutdown (sys_pool s)
        \<and> s' = s\<lparr>sys_pool := (sys_pool s)\<lparr>task_stack := \<lparr>task_fn = fn, task_args = args\<rparr> # task_stack (sys_pool s)\<rparr>,
                 sys_caller := Submitting rest, sys_accepted := sys_accepted s @ [(fn, args)]\<rparr>)
    \<or> (sys_caller s = Submitting []
        \<and> s' = s\<lparr>sys_pool := (sys_pool s)\<lparr>is_shutdown := True\<rparr>, sys_caller := Wait_Stack\<rparr>)
    \<or> (sys_caller s = Wait_Stack
        \<and> s' = s\<lparr>sys_pool := sys_pool s,
                 sys_caller := (if task_stack (sys_pool s) \<noteq> [] then Wait_Stack else Wait_Running)\<rparr>)
    \<or> (sys_caller s = Wait_Running
        \<and> s' = s\<lparr>sys_pool := sys_pool s,
                 sys_caller := (if num_threads_running (sys_pool s) \<noteq> 0 then Wait_Running else Teardown)\<rparr>)
    \<or> (sys_caller s = Teardown
        \<and> s' = s\<lparr>sys_pool := (sys_pool s)\<lparr>pool_mutex := Destroyed, threads := None\<rparr>,
                 sys_caller := Destroy_Returned\<rparr>))"
proof -
  from step have en: "sys_stopped s = None" "sys_caller s \<noteq> Destroy_Returned"
    by (auto simp add: sys_step_def split: if_splits)
  show ?thesis
  proof (cases "sys_caller s")
    case (Submitting cs)
    show ?thesis
    proof (cases cs)
      case Nil
      with Submitting step en free show ?thesis
        by (auto simp add: sys_step_def caller_step_def absorb_def POOL_destroy_shutdown_def critical_defs
          split: if_splits stop.splits)
    next
      case (Cons c rest)
      with Submitting step en free show ?thesis
        by (cases c)
          (auto simp add: sys_step_def caller_step_def absorb_def POOL_exectask_def critical_defs Let_def
            split: if_splits stop.splits)
    qed
  next
    case Wait_Stack
    with step en free show ?thesis
      by (auto simp add: sys_step_def caller_step_def absorb_def POOL_destroy_poll_stack_def critical_defs Let_def
        split: if_splits stop.splits)
  next
    case Wait_Running
    with step en free show ?thesis
      by (auto simp add: sys_step_def caller_step_def absorb_def POOL_destroy_poll_running_def critical_defs Let_def
        split: if_splits stop.splits)
  next
    case Teardown
    with step en free show ?thesis
      by (auto simp add: sys_step_def caller_step_def absorb_def POOL_destroy_teardown_def bind_def
        split: if_splits stop.splits)
  next
    case Destroy_Returned
    with en show ?thesis by simp
  qed
qed


lemma consistent_free:
  "consistent n calls s \<Longrightarrow> sys_caller s \<noteq> Destroy_Returned \<Longrightarrow> pool_mutex (sys_pool s) = Unlocked"
  by (simp add: consistent_def)

lemma consistent_all_returned:
  assumes "consistent n calls s" and "num_threads_running (sys_pool s) = 0"
  shows "in_flight (sys_workers s) = [] \<and> (\<forall>w \<in> set (sys_workers s). w = Returned)"
proof -
  from assms have "running_workers (sys_workers s) = 0"
    by (simp add: consistent_def)
  then show ?thesis
    by (rule running_workers_zero)
qed

lemma consistent_stopped:
  "consistent n calls s \<Longrightarrow> consistent n calls (s\<lparr>sys_stopped := e\<rparr>)"
  by (simp add: consistent_def)

lemma consistent_worker_step:
  assumes inv: "consistent n calls s"
    and step: "sys_step (Worker_Step i lock_rc unlock_rc) s = Some s'"
  shows "consistent n calls s'"
proof -
  from step have en: "i < length (sys_workers s)" "sys_workers s ! i \<noteq> Returned"
    by (auto simp add: sys_step_def split: if_splits)
  then have mem: "sys_workers s ! i \<in> set (sys_workers s)"
    by simp
  have live: "num_threads_running (sys_pool s) \<noteq> 0"
  proof
    assume "num_threads_running (sys_pool s) = 0"
    from consistent_all_returned [OF inv this] mem en(2) show False
      by blast
  qed
  then have not_zero: "\<not> running_seen_zero (sys_caller s)"
    using inv by (auto simp add: consistent_def)
  then have not_ret: "sys_caller s \<noteq> Destroy_Returned"
    by auto
  with inv have free: "pool_mutex (sys_pool s) = Unlocked"
    by (simp add: consistent_free)
  note upd_r = running_workers_update [OF en(1)]
  note upd_f = in_flight_update [OF en(1)]
  from worker_step_cases [OF step free] show ?thesis
  proof (elim conjE disjE exE, goal_cases)
    case (1 e)
    with inv show ?case
      by (simp add: consistent_stopped)
  next
    case 2
    from live have dec: "unat (num_threads_running (sys_pool s) - 1) = unat (num_threads_running (sys_pool s)) - 1"
      by (rule unat_minus_one)
    from upd_r [of Returned] 2 have "Suc (running_workers ((sys_workers s)[i := Returned])) = running_workers (sys_workers s)"
      by simp
    moreover from upd_f [of Returned] 2 have "mset (in_flight ((sys_workers s)[i := Returned])) = mset (in_flight (sys_workers s))"
      by simp
    ultimately show ?case
      using inv 2 dec live not_zero
      by (simp add: consistent_def stack_calls_def)
  next
    case 3
    then have "(sys_workers s)[i := AtLoopHead] = sys_workers s"
      by (metis list_update_id)
    with 3 have "s' = s"
      by simp
    with inv show ?case
      by simp
  next
    case (4 w rest)
    from upd_r [of "Calling (task_fn w) (task_args w)"] 4
    have "running_workers ((sys_workers s)[i := Calling (task_fn w) (task_args w)]) = running_workers (sys_workers s)"
      by simp
    moreover from upd_f [of "Calling (task_fn w) (task_args w)"] 4
    have "mset (in_flight ((sys_workers s)[i := Calling (task_fn w) (task_args w)]))
        = add_mset (task_fn w, task_args w) (mset (in_flight (sys_workers s)))"
      by simp
    ultimately show ?case
      using inv 4
      by (auto simp add: consistent_def stack_calls_def)
  next
    case (5 fn args)
    from upd_r [of AtLoopHead] 5
    have "running_workers ((sys_workers s)[i := AtLoopHead]) = running_workers (sys_workers s)"
      by simp
    moreover from upd_f [of AtLoopHead] 5
    have "add_mset (fn, args) (mset (in_flight ((sys_workers s)[i := AtLoopHead])))
        = mset (in_flight (sys_workers s))"
      by simp
    ultimately show ?case
      using inv 5
      by (auto simp add: consistent_def stack_calls_def)
  qed
qed


lemma consistent_caller_step:
  assumes inv: "consistent n calls s"
    and step: "sys_step (Caller_Step lock_rc unlock_rc) s = Some s'"
  shows "consistent n calls s'"
proof -
  from step have "sys_caller s \<noteq> Destroy_Returned"
    by (auto simp add: sys_step_def split: if_splits)
  with inv have free: "pool_mutex (sys_pool s) = Unlocked"
    by (simp add: consistent_free)
  from caller_step_cases [OF step free] show ?thesis
  proof (elim conjE disjE exE, goal_cases)
    case (1 e)
    with inv show ?case
      by (simp add: consistent_stopped)
  next
    case (2 fn args rest)
    with inv show ?case
      by (simp add: consistent_def)
  next
    case (3 fn args rest)
    with inv show ?case
      by (auto simp add: consistent_def stack_calls_def)
  next
    case 4
    with inv show ?case
      by (auto simp add: consistent_def stack_calls_def)
  next
    case 5
    with inv show ?case
      by (auto simp add: consistent_def stack_calls_def)
  next
    case 6
    with inv show ?case
      by (auto simp add: consistent_def stack_calls_def)
  next
    case 7
    with inv show ?case
      by (auto simp add: consistent_def stack_calls_def)
  qed
qed

lemma consistent_step:
  "consistent n calls s \<Longrightarrow> sys_step e s = Some s' \<Longrightarrow> consistent n calls s'"
  by (cases e) (auto intro: consistent_worker_step consistent_caller_step)

lemma consistent_exec:
  "exec evs s = Some s' \<Longrightarrow> consistent n calls s \<Longrightarrow> consistent n calls s'"
proof (induction evs arbitrary: s)
  case Nil
  then show ?case by simp
next
  case (Cons e evs)
  from Cons.prems(1) obtain s1 where s1: "sys_step e s = Some s1" and rest: "exec evs s1 = Some s'"
    by (auto split: option.splits)
  from consistent_step [OF Cons.prems(2) s1] have "consistent n calls s1" .
  with Cons.IH [OF rest] show ?case .
qed

lemma replicate_at_loop_head:
  "running_workers (replicate k AtLoopHead) = k \<and> in_flight (replicate k AtLoopHead) = []"
  by (induction k) (simp_all add: running_workers_def in_flight_def)

lemma start_fields:
  "task_stack (sys_pool (start mem n calls)) = []
 \<and> \<not> is_shutdown (sys_pool (start mem n calls))
 \<and> num_threads_running (sys_pool (start mem n calls)) = n
 \<and> pool_mutex (sys_pool (start mem n calls)) = Unlocked
 \<and> threads (sys_pool (start mem n calls)) \<noteq> None
 \<and> sys_caller (start mem n calls) = Submitting calls
 \<and> sys_accepted (start mem n calls) = []
 \<and> sys_completed (start mem n calls) = []
 \<and> (sys_stopped (start mem n calls) = None \<and> sys_workers (start mem n calls) = replicate (unat n) AtLoopHead
    \<or> sys_stopped (start mem n calls) \<noteq> None \<and> sys_workers (start mem n calls) = [])"
proof (cases "POOL_create True [] mem n")
  case (Inl e)
  then show ?thesis
    by (simp add: start_def POOL_create_initialize_def malloc_handles_def)
next
  case (Inr pw)
  obtain pool ws where pw: "pw = (pool, ws)"
    by (cases pw)
  with Inr have "spawn_threads [] 0 n (POOL_create_initialize True mem n, []) = Inr (pool, ws)"
    by (simp add: POOL_create_def)
  from spawn_threads_returns [OF this] Inr pw show ?thesis
    by (simp add: start_def POOL_create_initialize_def malloc_handles_def)
qed

lemma consistent_start:
  "sys_stopped (start mem n calls) = None \<Longrightarrow> consistent n calls (start mem n calls)"
  using start_fields [of mem n calls]
  by (auto simp add: consistent_def replicate_at_loop_head stack_calls_def)

lemma reachable_consistent:
  "exec evs (start mem n calls) = Some s \<Longrightarrow> sys_stopped (start mem n calls) = None \<Longrightarrow>
   consistent n calls s"
  by (rule consistent_exec [OF _ consistent_start])

lemma exec_stopped:
  "sys_stopped s \<noteq> None \<Longrightarrow> exec evs s = Some s' \<Longrightarrow> s' = s"
  by (cases evs) (simp_all add: sys_step_def)

lemmas run_defs =
  start_def POOL_create_def POOL_create_initialize_def malloc_handles_def sizeof_pthread_t_def
  spawn_threads.simps pthread_create_def
  sys_step_def worker_step_def caller_step_def absorb_def after_critical_def
  POOL_exectask_def await_and_do_tasks_critical_def POOL_destroy_shutdown_def
  POOL_destroy_poll_stack_def POOL_destroy_poll_running_def POOL_destroy_teardown_def
  bind_def POOL_CRITICAL_BEGIN_def POOL_CRITICAL_END_def

lemma example_run_9_end:
  "exec example_run_9 (start raw_memory 1 example_calls) = Some (example_state 1 AtLoopHead Wait_Running)"
  by (simp add: run_defs)

lemma example_worker_returns:
  "sys_step (Worker_Step 0 0 0) (example_state 1 AtLoopHead Wait_Running)
     = Some (example_state 0 Returned Wait_Running)"
  by (simp add: run_defs)

lemma example_run_11_end:
  "exec example_run_11 (start raw_memory 1 example_calls) = Some (example_state 0 Returned Teardown)"
  by (simp add: run_defs)

lemma example_teardown:
  "sys_step (Caller_Step 0 0) (example_state 0 Returned Teardown) = Some example_end"
  by (simp add: run_defs)

lemma example_run_end: "exec example_run (start raw_memory 1 example_calls) = Some example_end"
  by (simp add: run_defs)

lemma worker_step_caller:
  assumes "consistent n calls s" and "sys_step (Worker_Step i lock_rc unlock_rc) s = Some s'"
  shows "sys_caller s' = sys_caller s"
proof -
  from assms(2) have en: "i < length (sys_workers s)" "sys_workers s ! i \<noteq> Returned"
    by (auto simp add: sys_step_def split: if_splits)
  have "num_threads_running (sys_pool s) \<noteq> 0"
  proof
    assume "num_threads_running (sys_pool s) = 0"
    from consistent_all_returned [OF assms(1) this] en show False
      by (metis nth_mem)
  qed
  with assms(1) have "sys_caller s \<noteq> Destroy_Returned"
    by (auto simp add: consistent_def)
  with assms(1) have "pool_mutex (sys_pool s) = Unlocked"
    by (simp add: consistent_free)
  from worker_step_cases [OF assms(2) this] show ?thesis
    by auto
qed

lemma destroy_order_running:
  assumes "exec evs (start mem n calls) = Some s" and "sys_stopped (start mem n calls) = None"
  shows "is_shutdown (sys_pool s) = flag_set (sys_caller s)
       \<and> (stack_seen_empty (sys_caller s) \<longrightarrow> task_stack (sys_pool s) = [])
       \<and> (running_seen_zero (sys_caller s) \<longrightarrow> num_threads_running (sys_pool s) = 0)
       \<and> (pool_mutex (sys_pool s) = Destroyed) = (sys_caller s = Destroy_Returned)
       \<and> (threads (sys_pool s) = None) = (sys_caller s = Destroy_Returned)
       \<and> (sys_caller s = Destroy_Returned \<longrightarrow>
             is_shutdown (sys_pool s) \<and> task_stack (sys_pool s) = []
           \<and> num_threads_running (sys_pool s) = 0)
       \<and> (\<forall>e s'. sys_step e s = Some s' \<and> sys_caller s' \<noteq> sys_caller s \<longrightarrow>
             (\<exists>c rest. sys_caller s = Submitting (c # rest) \<and> sys_caller s' = Submitting rest)
           \<or> (sys_caller s = Submitting [] \<and> sys_caller s' = Wait_Stack
               \<and> sys_pool s' = (sys_pool s)\<lparr>is_shutdown := True\<rparr>)
           \<or> (sys_caller s = Wait_Stack \<and> sys_caller s' = Wait_Running
               \<and> task_stack (sys_pool s) = [] \<and> sys_pool s' = sys_pool s)
           \<or> (sys_caller s = Wait_Running \<and> sys_caller s' = Teardown
               \<and> num_threads_running (sys_pool s) = 0 \<and> sys_pool s' = sys_pool s)
           \<or> (sys_caller s = Teardown \<and> sys_caller s' = Destroy_Returned
               \<and> sys_pool s' = (sys_pool s)\<lparr>pool_mutex := Destroyed, threads := None\<rparr>))"
proof -
  from assms have inv: "consistent n calls s"
    by (rule reachable_consistent)
  have order: "(\<exists>c rest. sys_caller s = Submitting (c # rest) \<and> sys_caller s' = Submitting rest)
           \<or> (sys_caller s = Submitting [] \<and> sys_caller s' = Wait_Stack
               \<and> sys_pool s' = (sys_pool s)\<lparr>is_shutdown := True\<rparr>)
           \<or> (sys_caller s = Wait_Stack \<and> sys_caller s' = Wait_Running
               \<and> task_stack (sys_pool s) = [] \<and> sys_pool s' = sys_pool s)
           \<or> (sys_caller s = Wait_Running \<and> sys_caller s' = Teardown
               \<and> num_threads_running (sys_pool s) = 0 \<and> sys_pool s' = sys_pool s)
           \<or> (sys_caller s = Teardown \<and> sys_caller s' = Destroy_Returned
               \<and> sys_pool s' = (sys_pool s)\<lparr>pool_mutex := Destroyed, threads := None\<rparr>)"
    if step: "sys_step e s = Some s'" and moved: "sys_caller s' \<noteq> sys_caller s" for e s'
  proof (cases e)
    case (Worker_Step i lock_rc unlock_rc)
    with worker_step_caller [OF inv] step moved show ?thesis
      by simp
  next
    case (Caller_Step lock_rc unlock_rc)
    with step have "sys_caller s \<noteq> Destroy_Returned"
      by (auto simp add: sys_step_def split: if_splits)
    with inv have "pool_mutex (sys_pool s) = Unlocked"
      by (simp add: consistent_free)
    from caller_step_cases [OF step [unfolded Caller_Step] this] moved show ?thesis
      by (elim conjE disjE exE) (auto split: if_splits)
  qed
  from inv have "is_shutdown (sys_pool s) = flag_set (sys_caller s)"
    and "stack_seen_empty (sys_caller s) \<longrightarrow> task_stack (sys_pool s) = []"
    and "running_seen_zero (sys_caller s) \<longrightarrow> num_threads_running (sys_pool s) = 0"
    and "(pool_mutex (sys_pool s) = Destroyed) = (sys_caller s = Destroy_Returned)"
    and "(threads (sys_pool s) = None) = (sys_caller s = Destroy_Returned)"
    by (simp_all add: consistent_def)
  moreover from inv have "sys_caller s = Destroy_Returned \<longrightarrow>
             is_shutdown (sys_pool s) \<and> task_stack (sys_pool s) = []
           \<and> num_threads_running (sys_pool s) = 0"
    by (simp add: consistent_def)
  ultimately show ?thesis
    using order by blast
qed

text \<open>
  C5: in every state the program reaches, the flag is set exactly when the caller has
  passed the first critical section of \<open>POOL_destroy\<close>; once the caller has left the
  first loop the stack is empty, and once it has left the second loop the counter is
  zero; the mutex is destroyed and the handle storage freed exactly when the caller has
  returned. So on return the flag is set, the stack empty and the counter zero. The
  caller moves on only in this order: it sets the flag, leaves the first loop on seeing
  the stack empty, leaves the second loop on seeing the counter zero, and tears down.
\<close>

theorem destroy_order_and_postcondition:
  assumes "exec evs (start mem n calls) = Some s"
  shows "is_shutdown (sys_pool s) = flag_set (sys_caller s)
       \<and> (stack_seen_empty (sys_caller s) \<longrightarrow> task_stack (sys_pool s) = [])
       \<and> (running_seen_zero (sys_caller s) \<longrightarrow> num_threads_running (sys_pool s) = 0)
       \<and> (pool_mutex (sys_pool s) = Destroyed) = (sys_caller s = Destroy_Returned)
       \<and> (threads (sys_pool s) = None) = (sys_caller s = Destroy_Returned)
       \<and> (sys_caller s = Destroy_Returned \<longrightarrow>
             is_shutdown (sys_pool s) \<and> task_stack (sys_pool s) = []
           \<and> num_threads_running (sys_pool s) = 0)
       \<and> (\<forall>e s'. sys_step e s = Some s' \<and> sys_caller s' \<noteq> sys_caller s \<longrightarrow>
             (\<exists>c rest. sys_caller s = Submitting (c # rest) \<and> sys_caller s' = Submitting rest)
           \<or> (sys_caller s = Submitting [] \<and> sys_caller s' = Wait_Stack
               \<and> sys_pool s' = (sys_pool s)\<lparr>is_shutdown := True\<rparr>)
           \<or> (sys_caller s = Wait_Stack \<and> sys_caller s' = Wait_Running
               \<and> task_stack (sys_pool s) = [] \<and> sys_pool s' = sys_pool s)
           \<or> (sys_caller s = Wait_Running \<and> sys_caller s' = Teardown
               \<and> num_threads_running (sys_pool s) = 0 \<and> sys_pool s' = sys_pool s)
           \<or> (sys_caller s = Teardown \<and> sys_caller s' = Destroy_Returned
               \<and> sys_pool s' = (sys_pool s)\<lparr>pool_mutex := Destroyed, threads := None\<rparr>))"
proof (cases "sys_stopped (start mem n calls) = None")
  case True
  with assms show ?thesis
    by (rule destroy_order_running)
next
  case False
  from exec_stopped [OF False assms] have s: "s = start mem n calls" .
  from False s have "sys_step e s = None" for e
    by (simp add: sys_step_def)
  with start_fields [of mem n calls] False s show ?thesis
    by simp
qed

theorem destroy_order_and_postcondition_witness:
  "exec example_run_11 (start raw_memory 1 example_calls) = Some (example_state 0 Returned Teardown)
 \<and> sys_step (Caller_Step 0 0) (example_state 0 Returned Teardown) = Some example_end
 \<and> sys_pool example_end
      = (sys_pool (example_state 0 Returned Teardown))\<lparr>pool_mutex := Destroyed, threads := None\<rparr>
 \<and> exec example_run (start raw_memory 1 example_calls) = Some example_end
 \<and> is_shutdown (sys_pool example_end)
 \<and> task_stack (sys_pool example_end) = []
 \<and> num_threads_running (sys_pool example_end) = 0
 \<and> pool_mutex (sys_pool example_end) = Destroyed
 \<and> threads (sys_pool example_end) = None"
  using destroy_order_and_postcondition [OF example_run_11_end]
    destroy_order_and_postcondition [OF example_run_end]
    example_run_11_end example_teardown example_run_end
  by simp

lemma running_counter_running:
  assumes "exec evs (start mem n calls) = Some s" and "sys_step e s = Some s'"
    and "sys_stopped (start mem n calls) = None"
  shows "num_threads_running (sys_pool (start mem n calls)) = n
       \<and> unat (num_threads_running (sys_pool s)) = running_workers (sys_workers s)
       \<and> unat (num_threads_running (sys_pool s')) \<le> unat (num_threads_running (sys_pool s))
       \<and> (\<forall>i. i < length (sys_workers s) \<and> sys_workers s ! i \<noteq> Returned \<and> sys_workers s' ! i = Returned \<longrightarrow>
             Suc (unat (num_threads_running (sys_pool s'))) = unat (num_threads_running (sys_pool s)))
       \<and> (num_threads_running (sys_pool s') \<noteq> num_threads_running (sys_pool s) \<longrightarrow>
             (\<exists>i lock_rc unlock_rc. e = Worker_Step i lock_rc unlock_rc \<and> i < length (sys_workers s)
                \<and> sys_workers s ! i = AtLoopHead \<and> sys_workers s' ! i = Returned))"
proof -
  from assms(1,3) have inv: "consistent n calls s"
    by (rule reachable_consistent)
  then have count: "unat (num_threads_running (sys_pool s)) = running_workers (sys_workers s)"
    by (simp add: consistent_def)
  have init: "num_threads_running (sys_pool (start mem n calls)) = n"
    using start_fields [of mem n calls] by simp
  have "unat (num_threads_running (sys_pool s')) \<le> unat (num_threads_running (sys_pool s))
       \<and> (\<forall>i. i < length (sys_workers s) \<and> sys_workers s ! i \<noteq> Returned \<and> sys_workers s' ! i = Returned \<longrightarrow>
             Suc (unat (num_threads_running (sys_pool s'))) = unat (num_threads_running (sys_pool s)))
       \<and> (num_threads_running (sys_pool s') \<noteq> num_threads_running (sys_pool s) \<longrightarrow>
             (\<exists>i lock_rc unlock_rc. e = Worker_Step i lock_rc unlock_rc \<and> i < length (sys_workers s)
                \<and> sys_workers s ! i = AtLoopHead \<and> sys_workers s' ! i = Returned))"
  proof (cases e)
    case (Worker_Step i lock_rc unlock_rc)
    with assms(2) have step: "sys_step (Worker_Step i lock_rc unlock_rc) s = Some s'"
      by simp
    then have en: "i < length (sys_workers s)" "sys_workers s ! i \<noteq> Returned"
      by (auto simp add: sys_step_def split: if_splits)
    have live: "num_threads_running (sys_pool s) \<noteq> 0"
    proof
      assume "num_threads_running (sys_pool s) = 0"
      from consistent_all_returned [OF inv this] en show False
        by (metis nth_mem)
    qed
    then have dec: "unat (num_threads_running (sys_pool s) - 1) = unat (num_threads_running (sys_pool s)) - 1"
      by (rule unat_minus_one)
    from live have pos: "0 < unat (num_threads_running (sys_pool s))"
      by (simp add: unat_gt_0)
    from live inv have "sys_caller s \<noteq> Destroy_Returned"
      by (auto simp add: consistent_def)
    with inv have "pool_mutex (sys_pool s) = Unlocked"
      by (simp add: consistent_free)
    from worker_step_cases [OF step this] show ?thesis
    proof (elim conjE disjE exE, goal_cases)
      case (1 x)
      then show ?case by simp
    next
      case 2
      with dec pos en Worker_Step show ?case
        by (auto simp add: nth_list_update)
    next
      case 3
      then show ?case by (auto simp add: nth_list_update)
    next
      case (4 w rest)
      then show ?case by (auto simp add: nth_list_update)
    next
      case (5 fn args)
      then show ?case by (auto simp add: nth_list_update)
    qed
  next
    case (Caller_Step lock_rc unlock_rc)
    with assms(2) have step: "sys_step (Caller_Step lock_rc unlock_rc) s = Some s'"
      by simp
    then have "sys_caller s \<noteq> Destroy_Returned"
      by (auto simp add: sys_step_def split: if_splits)
    with inv have "pool_mutex (sys_pool s) = Unlocked"
      by (simp add: consistent_free)
    from caller_step_cases [OF step this] show ?thesis
      by (elim conjE disjE exE) auto
  qed
  with init count show ?thesis
    by simp
qed

text \<open>
  C7: \<open>POOL_create\<close> sets the counter to \<open>n\<close>. In every state the program reaches,
  the counter is the number of workers that have not returned, no step increases it,
  the step in which a worker returns lowers it by exactly one, and no other step changes
  it.
\<close>

theorem running_counter_never_increases:
  assumes "exec evs (start mem n calls) = Some s" and "sys_step e s = Some s'"
  shows "num_threads_running (sys_pool (start mem n calls)) = n
       \<and> unat (num_threads_running (sys_pool s)) = running_workers (sys_workers s)
       \<and> unat (num_threads_running (sys_pool s')) \<le> unat (num_threads_running (sys_pool s))
       \<and> (\<forall>i. i < length (sys_workers s) \<and> sys_workers s ! i \<noteq> Returned \<and> sys_workers s' ! i = Returned \<longrightarrow>
             Suc (unat (num_threads_running (sys_pool s'))) = unat (num_threads_running (sys_pool s)))
       \<and> (num_threads_running (sys_pool s') \<noteq> num_threads_running (sys_pool s) \<longrightarrow>
             (\<exists>i lock_rc unlock_rc. e = Worker_Step i lock_rc unlock_rc \<and> i < length (sys_workers s)
                \<and> sys_workers s ! i = AtLoopHead \<and> sys_workers s' ! i = Returned))"
proof (cases "sys_stopped (start mem n calls) = None")
  case True
  with assms show ?thesis
    by (rule running_counter_running)
next
  case False
  from exec_stopped [OF False assms(1)] have "s = start mem n calls" .
  with False have "sys_step e s = None"
    by (simp add: sys_step_def)
  with assms(2) show ?thesis
    by simp
qed

theorem running_counter_never_increases_witness:
  "exec example_run_9 (start raw_memory 1 example_calls) = Some (example_state 1 AtLoopHead Wait_Running)
 \<and> sys_step (Worker_Step 0 0 0) (example_state 1 AtLoopHead Wait_Running)
      = Some (example_state 0 Returned Wait_Running)
 \<and> num_threads_running (sys_pool (start raw_memory 1 example_calls)) = 1
 \<and> unat (num_threads_running (sys_pool (example_state 0 Returned Wait_Running)))
      \<le> unat (num_threads_running (sys_pool (example_state 1 AtLoopHead Wait_Running)))
 \<and> Suc (unat (num_threads_running (sys_pool (example_state 0 Returned Wait_Running))))
      = unat (num_threads_running (sys_pool (example_state 1 AtLoopHead Wait_Running)))"
  using running_counter_never_increases [OF example_run_9_end example_worker_returns]
    example_run_9_end example_worker_returns
  by simp

lemma consistent_live_free:
  assumes inv: "consistent n calls s"
    and en: "i < length (sys_workers s)" "sys_workers s ! i \<noteq> Returned"
  shows "pool_mutex (sys_pool s) = Unlocked \<and> num_threads_running (sys_pool s) \<noteq> 0"
proof -
  have live: "num_threads_running (sys_pool s) \<noteq> 0"
  proof
    assume "num_threads_running (sys_pool s) = 0"
    from consistent_all_returned [OF inv this] en show False
      by (metis nth_mem)
  qed
  with inv have "sys_caller s \<noteq> Destroy_Returned"
    by (auto simp add: consistent_def)
  with inv live show ?thesis
    by (simp add: consistent_free)
qed

lemma set_update_other:
  "x \<in> set (xs[i := y]) \<Longrightarrow> x \<noteq> y \<Longrightarrow> x \<in> set xs"
  using set_update_subset_insert [of xs i y] by auto

lemma drained_step:
  assumes inv: "consistent n calls s" and dr: "drained s" and step: "sys_step e s = Some s'"
  shows "drained s'"
proof (cases e)
  case (Worker_Step i lock_rc unlock_rc)
  with step have st: "sys_step (Worker_Step i lock_rc unlock_rc) s = Some s'"
    by simp
  then have en: "i < length (sys_workers s)" "sys_workers s ! i \<noteq> Returned"
    by (auto simp add: sys_step_def split: if_splits)
  from consistent_live_free [OF inv en] have free: "pool_mutex (sys_pool s) = Unlocked"
    by simp
  from worker_step_cases [OF st free] show ?thesis
  proof (elim conjE disjE exE, goal_cases)
    case (1 x)
    with dr show ?case by (simp add: drained_def)
  next
    case 2
    then show ?case by (simp add: drained_def)
  next
    case 3
    with dr show ?case
      by (auto simp add: drained_def dest: set_update_other)
  next
    case (4 w rest)
    with dr show ?case
      by (auto simp add: drained_def dest: set_update_other)
  next
    case (5 fn args)
    with dr show ?case
      by (auto simp add: drained_def dest: set_update_other)
  qed
next
  case (Caller_Step lock_rc unlock_rc)
  with step have st: "sys_step (Caller_Step lock_rc unlock_rc) s = Some s'"
    by simp
  then have "sys_caller s \<noteq> Destroy_Returned"
    by (auto simp add: sys_step_def split: if_splits)
  with inv have free: "pool_mutex (sys_pool s) = Unlocked"
    by (simp add: consistent_free)
  from inv have flag: "is_shutdown (sys_pool s) = flag_set (sys_caller s)"
    by (simp add: consistent_def)
  from caller_step_cases [OF st free] dr flag show ?thesis
    by (elim conjE disjE exE) (auto simp add: drained_def)
qed

lemma drained_start: "drained (start mem n calls)"
  using start_fields [of mem n calls] by (auto simp add: drained_def)


lemmas step_defs =
  sys_step_def worker_step_def caller_step_def absorb_def after_critical_def
  POOL_exectask_def await_and_do_tasks_critical_def POOL_destroy_shutdown_def
  POOL_destroy_poll_stack_def POOL_destroy_poll_running_def POOL_destroy_teardown_def
  bind_def POOL_CRITICAL_BEGIN_def POOL_CRITICAL_END_def Let_def

lemma in_flight_update_set:
  assumes "i < length ws"
  shows "set (in_flight (ws[i := w])) \<union> set (calling (ws ! i)) = set (in_flight ws) \<union> set (calling w)"
proof -
  from in_flight_update [OF assms, of w]
  have "set_mset (mset (in_flight (ws[i := w])) + mset (calling (ws ! i)))
      = set_mset (mset (in_flight ws) + mset (calling w))"
    by simp
  then show ?thesis
    by simp
qed

lemma in_flight_update_length:
  assumes "i < length ws"
  shows "length (in_flight (ws[i := w])) + length (calling (ws ! i)) = length (in_flight ws) + length (calling w)"
proof -
  from in_flight_update [OF assms, of w]
  have "size (mset (in_flight (ws[i := w])) + mset (calling (ws ! i)))
      = size (mset (in_flight ws) + mset (calling w))"
    by simp
  then show ?thesis
    by simp
qed

lemma pending_step:
  assumes inv: "consistent n calls s" and step: "sys_step e s = Some s'"
  shows "set (pending s') \<subseteq> set (pending s)"
proof (cases e)
  case (Worker_Step i lock_rc unlock_rc)
  with step have st: "sys_step (Worker_Step i lock_rc unlock_rc) s = Some s'"
    by simp
  then have en: "i < length (sys_workers s)" "sys_workers s ! i \<noteq> Returned"
    by (auto simp add: sys_step_def split: if_splits)
  from consistent_live_free [OF inv en] have free: "pool_mutex (sys_pool s) = Unlocked"
    by simp
  note upd = in_flight_update_set [OF en(1)]
  from worker_step_cases [OF st free] show ?thesis
  proof (elim conjE disjE exE, goal_cases)
    case (1 x)
    then show ?case by (simp add: pending_def)
  next
    case 2
    with upd [of Returned] show ?case
      by (auto simp add: pending_def stack_calls_def)
  next
    case 3
    with upd [of AtLoopHead] show ?case
      by (auto simp add: pending_def stack_calls_def)
  next
    case (4 w rest)
    with upd [of "Calling (task_fn w) (task_args w)"] show ?case
      by (auto simp add: pending_def stack_calls_def)
  next
    case (5 fn args)
    with upd [of AtLoopHead] show ?case
      by (auto simp add: pending_def stack_calls_def)
  qed
next
  case (Caller_Step lock_rc unlock_rc)
  with step have st: "sys_step (Caller_Step lock_rc unlock_rc) s = Some s'"
    by simp
  then have "sys_caller s \<noteq> Destroy_Returned"
    by (auto simp add: sys_step_def split: if_splits)
  with inv have free: "pool_mutex (sys_pool s) = Unlocked"
    by (simp add: consistent_free)
  from caller_step_cases [OF st free] show ?thesis
    by (elim conjE disjE exE) (auto simp add: pending_def stack_calls_def)
qed

lemma callable_step:
  "consistent n calls s \<Longrightarrow> callable s \<Longrightarrow> sys_step e s = Some s' \<Longrightarrow> callable s'"
  using pending_step [of n calls s e s'] by (auto simp add: callable_def)

lemma live_worker:
  assumes "running_workers ws \<noteq> 0"
  shows "\<exists>i < length ws. ws ! i \<noteq> Returned"
proof -
  from assms have "filter (\<lambda>w. w \<noteq> Returned) ws \<noteq> []"
    by (simp add: running_workers_def)
  then obtain w where "w \<in> set ws" and "w \<noteq> Returned"
    by (auto simp add: filter_empty_conv)
  then show ?thesis
    by (auto simp add: in_set_conv_nth)
qed

lemma worker_progress:
  assumes inv: "consistent n calls s" and run: "sys_stopped s = None" and ok: "callable s"
    and en: "i < length (sys_workers s)" "sys_workers s ! i \<noteq> Returned"
    and work: "task_stack (sys_pool s) \<noteq> [] \<or> is_shutdown (sys_pool s)"
  shows "\<exists>s1. sys_step (Worker_Step i 0 0) s = Some s1 \<and> sys_stopped s1 = None \<and> todo s1 < todo s"
proof -
  from consistent_live_free [OF inv en] have free: "pool_mutex (sys_pool s) = Unlocked"
    by simp
  note len = in_flight_update_length [OF en(1)]
  note cnt = running_workers_update [OF en(1)]
  show ?thesis
  proof (cases "sys_workers s ! i")
    case AtLoopHead
    show ?thesis
    proof (cases "task_stack (sys_pool s)")
      case Nil
      with work have "is_shutdown (sys_pool s)"
        by simp
      with Nil AtLoopHead run free en have
        "sys_step (Worker_Step i 0 0) s
           = Some (s\<lparr>sys_pool := (sys_pool s)\<lparr>num_threads_running := num_threads_running (sys_pool s) - 1\<rparr>,
                     sys_workers := (sys_workers s)[i := Returned]\<rparr>)"
        by (simp add: step_defs)
      moreover from len [of Returned] cnt [of Returned] AtLoopHead
      have "length (in_flight ((sys_workers s)[i := Returned])) = length (in_flight (sys_workers s))"
        and "Suc (running_workers ((sys_workers s)[i := Returned])) = running_workers (sys_workers s)"
        by simp_all
      ultimately show ?thesis
        using run by (simp add: todo_def)
    next
      case (Cons w rest)
      with AtLoopHead run free en have
        "sys_step (Worker_Step i 0 0) s
           = Some (s\<lparr>sys_pool := (sys_pool s)\<lparr>task_stack := rest\<rparr>,
                     sys_workers := (sys_workers s)[i := Calling (task_fn w) (task_args w)]\<rparr>)"
        by (simp add: step_defs)
      moreover from len [of "Calling (task_fn w) (task_args w)"] cnt [of "Calling (task_fn w) (task_args w)"] AtLoopHead
      have "length (in_flight ((sys_workers s)[i := Calling (task_fn w) (task_args w)]))
              = Suc (length (in_flight (sys_workers s)))"
        and "running_workers ((sys_workers s)[i := Calling (task_fn w) (task_args w)])
              = running_workers (sys_workers s)"
        by simp_all
      ultimately show ?thesis
        using run Cons by (simp add: todo_def)
    qed
  next
    case (Calling fn args)
    from in_flight_update_set [OF en(1), of AtLoopHead] Calling
    have "(fn, args) \<in> set (in_flight (sys_workers s))"
      by auto
    then have "(fn, args) \<in> set (pending s)"
      by (simp add: pending_def)
    with ok have "fst (fn, args) \<noteq> 0"
      unfolding callable_def by blast
    then have "fn \<noteq> 0"
      by simp
    with Calling run en have
      "sys_step (Worker_Step i 0 0) s
         = Some (s\<lparr>sys_workers := (sys_workers s)[i := AtLoopHead],
                   sys_completed := sys_completed s @ [(fn, args)]\<rparr>)"
      by (simp add: step_defs)
    moreover from len [of AtLoopHead] cnt [of AtLoopHead] Calling
    have "Suc (length (in_flight ((sys_workers s)[i := AtLoopHead]))) = length (in_flight (sys_workers s))"
      and "running_workers ((sys_workers s)[i := AtLoopHead]) = running_workers (sys_workers s)"
      by simp_all
    ultimately show ?thesis
      using run by (auto simp add: todo_def)
  next
    case Returned
    with en show ?thesis by simp
  qed
qed


lemma progress_step:
  assumes inv: "consistent n calls s" and dr: "drained s" and run: "sys_stopped s = None"
    and ok: "callable s" and workers: "n \<noteq> 0" and busy: "sys_caller s \<noteq> Destroy_Returned"
  shows "\<exists>e s1. sys_step e s = Some s1 \<and> sys_stopped s1 = None \<and> todo s1 < todo s"
proof -
  from inv busy have free: "pool_mutex (sys_pool s) = Unlocked"
    by (simp add: consistent_free)
  from inv have flag: "is_shutdown (sys_pool s) = flag_set (sys_caller s)"
    and count: "unat (num_threads_running (sys_pool s)) = running_workers (sys_workers s)"
    and len: "length (sys_workers s) = unat n"
    by (simp_all add: consistent_def)
  from workers have "unat n \<noteq> 0"
    by (simp add: unat_eq_0)
  with len have some: "0 < length (sys_workers s)"
    by simp
  show ?thesis
  proof (cases "sys_caller s")
    case (Submitting cs)
    show ?thesis
    proof (cases cs)
      case Nil
      let ?s1 = "s\<lparr>sys_pool := (sys_pool s)\<lparr>is_shutdown := True\<rparr>, sys_caller := Wait_Stack\<rparr>"
      from Nil Submitting run free have "sys_step (Caller_Step 0 0) s = Some ?s1"
        by (simp add: step_defs)
      moreover from run Submitting Nil have "sys_stopped ?s1 = None \<and> todo ?s1 < todo s"
        by (simp add: todo_def)
      ultimately show ?thesis
        by blast
    next
      case (Cons c rest)
      obtain fn args where c: "c = (fn, args)"
        by (cases c)
      from Submitting flag have accepts: "\<not> is_shutdown (sys_pool s)"
        by simp
      let ?s1 = "s\<lparr>sys_pool := (sys_pool s)\<lparr>task_stack := \<lparr>task_fn = fn, task_args = args\<rparr> # task_stack (sys_pool s)\<rparr>,
                     sys_caller := Submitting rest, sys_accepted := sys_accepted s @ [(fn, args)]\<rparr>"
      from accepts Submitting Cons c run free have "sys_step (Caller_Step 0 0) s = Some ?s1"
        by (simp add: step_defs)
      moreover from run Submitting Cons have "sys_stopped ?s1 = None \<and> todo ?s1 < todo s"
        by (simp add: todo_def)
      ultimately show ?thesis
        by blast
    qed
  next
    case Wait_Stack
    show ?thesis
    proof (cases "task_stack (sys_pool s) = []")
      case True
      let ?s1 = "s\<lparr>sys_pool := sys_pool s, sys_caller := Wait_Running\<rparr>"
      from True Wait_Stack run free have "sys_step (Caller_Step 0 0) s = Some ?s1"
        by (simp add: step_defs)
      moreover from run Wait_Stack have "sys_stopped ?s1 = None \<and> todo ?s1 < todo s"
        by (simp add: todo_def)
      ultimately show ?thesis
        by blast
    next
      case False
      with dr have "Returned \<notin> set (sys_workers s)"
        by (auto simp add: drained_def)
      with some have "sys_workers s ! 0 \<noteq> Returned"
        by (metis nth_mem)
      from worker_progress [OF inv run ok some this] False show ?thesis
        by blast
    qed
  next
    case Wait_Running
    show ?thesis
    proof (cases "num_threads_running (sys_pool s) = 0")
      case True
      let ?s1 = "s\<lparr>sys_pool := sys_pool s, sys_caller := Teardown\<rparr>"
      from True Wait_Running run free have "sys_step (Caller_Step 0 0) s = Some ?s1"
        by (simp add: step_defs)
      moreover from run Wait_Running have "sys_stopped ?s1 = None \<and> todo ?s1 < todo s"
        by (simp add: todo_def)
      ultimately show ?thesis
        by blast
    next
      case False
      then have "unat (num_threads_running (sys_pool s)) \<noteq> 0"
        by (simp add: unat_eq_0)
      with count have "running_workers (sys_workers s) \<noteq> 0"
        by simp
      from live_worker [OF this] obtain i where i: "i < length (sys_workers s)" "sys_workers s ! i \<noteq> Returned"
        by blast
      from Wait_Running flag have "is_shutdown (sys_pool s)"
        by simp
      with worker_progress [OF inv run ok i] show ?thesis
        by blast
    qed
  next
    case Teardown
    let ?s1 = "s\<lparr>sys_pool := (sys_pool s)\<lparr>pool_mutex := Destroyed, threads := None\<rparr>,
                   sys_caller := Destroy_Returned\<rparr>"
    from Teardown run free have "sys_step (Caller_Step 0 0) s = Some ?s1"
      by (simp add: step_defs)
    moreover from run Teardown have "sys_stopped ?s1 = None \<and> todo ?s1 < todo s"
      by (simp add: todo_def)
    ultimately show ?thesis
      by blast
  next
    case Destroy_Returned
    with busy show ?thesis by simp
  qed
qed

lemma can_return:
  assumes "consistent n calls s" and "drained s" and "sys_stopped s = None"
    and "callable s" and "n \<noteq> 0"
  shows "\<exists>evs s'. exec evs s = Some s' \<and> sys_caller s' = Destroy_Returned \<and> sys_stopped s' = None"
  using assms
proof (induction "todo s" arbitrary: s rule: less_induct)
  case less
  show ?case
  proof (cases "sys_caller s = Destroy_Returned")
    case True
    with less.prems(3) have "exec [] s = Some s \<and> sys_caller s = Destroy_Returned \<and> sys_stopped s = None"
      by simp
    then show ?thesis
      by blast
  next
    case False
    from progress_step [OF less.prems(1,2,3,4,5) False]
    obtain e s1 where step: "sys_step e s = Some s1" and run: "sys_stopped s1 = None"
      and smaller: "todo s1 < todo s"
      by blast
    from consistent_step [OF less.prems(1) step] have inv1: "consistent n calls s1" .
    from drained_step [OF less.prems(1,2) step] have dr1: "drained s1" .
    from callable_step [OF less.prems(1,4) step] have ok1: "callable s1" .
    from less.hyps [OF smaller inv1 dr1 run ok1 less.prems(5)]
    obtain evs s' where "exec evs s1 = Some s'" and "sys_caller s' = Destroy_Returned" and "sys_stopped s' = None"
      by blast
    with step have "exec (e # evs) s = Some s' \<and> sys_caller s' = Destroy_Returned \<and> sys_stopped s' = None"
      by simp
    then show ?thesis
      by blast
  qed
qed

lemma drained_exec:
  "exec evs s = Some s' \<Longrightarrow> consistent n calls s \<Longrightarrow> drained s \<Longrightarrow> drained s'"
proof (induction evs arbitrary: s)
  case Nil
  then show ?case by simp
next
  case (Cons e evs)
  from Cons.prems(1) obtain s1 where s1: "sys_step e s = Some s1" and rest: "exec evs s1 = Some s'"
    by (auto split: option.splits)
  from Cons.IH [OF rest consistent_step [OF Cons.prems(2) s1] drained_step [OF Cons.prems(2,3) s1]]
  show ?case .
qed

lemma callable_exec:
  "exec evs s = Some s' \<Longrightarrow> consistent n calls s \<Longrightarrow> callable s \<Longrightarrow> callable s'"
proof (induction evs arbitrary: s)
  case Nil
  then show ?case by simp
next
  case (Cons e evs)
  from Cons.prems(1) obtain s1 where s1: "sys_step e s = Some s1" and rest: "exec evs s1 = Some s'"
    by (auto split: option.splits)
  from Cons.IH [OF rest consistent_step [OF Cons.prems(2) s1] callable_step [OF Cons.prems(2,3) s1]]
  show ?case .
qed

lemma callable_start:
  "\<forall>c \<in> set calls. fst c \<noteq> 0 \<Longrightarrow> callable (start mem n calls)"
  using start_fields [of mem n calls]
  by (auto simp add: callable_def pending_def stack_calls_def replicate_at_loop_head in_flight_def)

lemma exec_append:
  "exec (xs @ ys) s = (case exec xs s of None \<Rightarrow> None | Some s1 \<Rightarrow> exec ys s1)"
  by (induction xs arbitrary: s) (simp_all split: option.splits)

lemma reachable_can_return:
  assumes reach: "exec evs (start mem n calls) = Some s" and run: "sys_stopped s = None"
    and workers: "n \<noteq> 0" and ok: "\<forall>c \<in> set calls. fst c \<noteq> 0"
  shows "\<exists>evs' s'. exec (evs @ evs') (start mem n calls) = Some s' \<and> sys_caller s' = Destroy_Returned
           \<and> sys_stopped s' = None"
proof -
  have "sys_stopped (start mem n calls) = None"
  proof (rule ccontr)
    assume stopped: "sys_stopped (start mem n calls) \<noteq> None"
    from exec_stopped [OF stopped reach] run stopped show False
      by simp
  qed
  note inv0 = consistent_start [OF this]
  from consistent_exec [OF reach inv0] have inv: "consistent n calls s" .
  from drained_exec [OF reach inv0 drained_start] have dr: "drained s" .
  from callable_exec [OF reach inv0 callable_start [OF ok]] have c: "callable s" .
  from can_return [OF inv dr run c workers]
  obtain evs' s' where "exec evs' s = Some s'" and "sys_caller s' = Destroy_Returned" and "sys_stopped s' = None"
    by blast
  with reach have "exec (evs @ evs') (start mem n calls) = Some s' \<and> sys_caller s' = Destroy_Returned
      \<and> sys_stopped s' = None"
    by (simp add: exec_append)
  then show ?thesis
    by blast
qed

lemma all_calls_complete_running:
  assumes "exec evs (start mem n calls) = Some s" and "sys_stopped (start mem n calls) = None"
  shows "mset (sys_accepted s)
           = mset (stack_calls (sys_pool s)) + mset (in_flight (sys_workers s)) + mset (sys_completed s)
       \<and> (sys_caller s = Destroy_Returned \<longrightarrow>
             sys_accepted s = calls
           \<and> mset (sys_completed s) = mset calls
           \<and> length (sys_completed s) = length calls
           \<and> in_flight (sys_workers s) = []
           \<and> task_stack (sys_pool s) = [])
       \<and> (sys_stopped s = None \<and> n \<noteq> 0 \<and> (\<forall>c \<in> set calls. fst c \<noteq> 0) \<longrightarrow>
             (\<exists>evs' s'. exec (evs @ evs') (start mem n calls) = Some s'
                \<and> sys_caller s' = Destroy_Returned \<and> sys_stopped s' = None))"
proof -
  from assms have inv: "consistent n calls s"
    by (rule reachable_consistent)
  then have conserve: "mset (sys_accepted s)
           = mset (stack_calls (sys_pool s)) + mset (in_flight (sys_workers s)) + mset (sys_completed s)"
    by (simp add: consistent_def)
  have "sys_accepted s = calls \<and> mset (sys_completed s) = mset calls
      \<and> length (sys_completed s) = length calls
      \<and> in_flight (sys_workers s) = [] \<and> task_stack (sys_pool s) = []"
    if ret: "sys_caller s = Destroy_Returned"
  proof -
    from inv ret have acc: "sys_accepted s = calls" and empty: "task_stack (sys_pool s) = []"
      and zero: "num_threads_running (sys_pool s) = 0"
      by (simp_all add: consistent_def)
    from consistent_all_returned [OF inv zero] have idle: "in_flight (sys_workers s) = []"
      by simp
    from conserve acc empty idle have m: "mset (sys_completed s) = mset calls"
      by (simp add: stack_calls_def)
    from m have "length (sys_completed s) = length calls"
      by (rule mset_eq_length)
    with acc m idle empty show ?thesis
      by simp
  qed
  moreover have "\<exists>evs' s'. exec (evs @ evs') (start mem n calls) = Some s'
                \<and> sys_caller s' = Destroy_Returned \<and> sys_stopped s' = None"
    if "sys_stopped s = None \<and> n \<noteq> 0 \<and> (\<forall>c \<in> set calls. fst c \<noteq> 0)"
  proof -
    from that have "sys_stopped s = None" and "n \<noteq> 0" and "\<forall>c \<in> set calls. fst c \<noteq> 0"
      by simp_all
    then show ?thesis
      by (rule reachable_can_return [OF assms(1)])
  qed
  ultimately show ?thesis
    using conserve by blast
qed

text \<open>
  C8: in every state the program reaches, each accepted call is on the stack, being
  executed or completed, exactly once. When \<open>POOL_destroy\<close> has returned, every
  submitted call has been accepted, the stack is empty, no call is being executed, and
  the completed calls are the submitted ones, each once. With at least one worker and no
  \<open>NULL\<close> callable, every run that has not stopped can be continued to a state in which
  \<open>POOL_destroy\<close> has returned.
\<close>

theorem all_calls_complete_before_destroy_returns:
  assumes "exec evs (start mem n calls) = Some s"
  shows "mset (sys_accepted s)
           = mset (stack_calls (sys_pool s)) + mset (in_flight (sys_workers s)) + mset (sys_completed s)
       \<and> (sys_caller s = Destroy_Returned \<longrightarrow>
             sys_accepted s = calls
           \<and> mset (sys_completed s) = mset calls
           \<and> length (sys_completed s) = length calls
           \<and> in_flight (sys_workers s) = []
           \<and> task_stack (sys_pool s) = [])
       \<and> (sys_stopped s = None \<and> n \<noteq> 0 \<and> (\<forall>c \<in> set calls. fst c \<noteq> 0) \<longrightarrow>
             (\<exists>evs' s'. exec (evs @ evs') (start mem n calls) = Some s'
                \<and> sys_caller s' = Destroy_Returned \<and> sys_stopped s' = None))"
proof (cases "sys_stopped (start mem n calls) = None")
  case True
  with assms show ?thesis
    by (rule all_calls_complete_running)
next
  case False
  from exec_stopped [OF False assms] have s: "s = start mem n calls" .
  with start_fields [of mem n calls] False show ?thesis
    by (auto simp add: stack_calls_def in_flight_def)
qed

theorem all_calls_complete_before_destroy_returns_witness:
  "exec example_run (start raw_memory 1 example_calls) = Some example_end
 \<and> sys_caller example_end = Destroy_Returned
 \<and> sys_accepted example_end = example_calls
 \<and> mset (sys_completed example_end) = mset example_calls
 \<and> length (sys_completed example_end) = 2
 \<and> (\<exists>evs' s'. exec evs' (start raw_memory 1 example_calls) = Some s'
       \<and> sys_caller s' = Destroy_Returned \<and> sys_stopped s' = None)"
proof -
  have first: "exec [] (start raw_memory 1 example_calls) = Some (start raw_memory 1 example_calls)"
    by simp
  have "sys_stopped (start raw_memory 1 example_calls) = None"
    by (simp add: run_defs)
  with all_calls_complete_before_destroy_returns [OF first]
  have "\<exists>evs' s'. exec evs' (start raw_memory 1 example_calls) = Some s'
       \<and> sys_caller s' = Destroy_Returned \<and> sys_stopped s' = None"
    by simp
  with all_calls_complete_before_destroy_returns [OF example_run_end] example_run_end
  show ?thesis
    by simp
qed

end
